theory Spec2Isabelle
  imports Main "HOL-Library.Word" "HOL-Library.Signed_Division"
begin

unbundle bit_operations_syntax

section \<open>Strings of the host language\<close>

text \<open>
  A JavaScript string is a sequence of 16-bit code units. Source texts, token payloads and
  the emitted IR text are all values of \<open>jsstring\<close>. \<open>js\<close> turns an ASCII literal into
  such a string; \<open>ch\<close> does so for one character.
\<close>

type_synonym cu = "16 word"
type_synonym jsstring = "cu list"

definition ch :: "char \<Rightarrow> cu" where
  "ch c = of_char c"

definition js :: "string \<Rightarrow> jsstring" where
  "js s = map ch s"

text \<open>
  \<open>toString()\<close> of a small whole number, as the ids of the generators and the byte count of
  a string constant are: its decimal digits.
\<close>

fun digits10 :: "nat \<Rightarrow> nat list" where
  "digits10 n = (if n < 10 then [n] else digits10 (n div 10) @ [n mod 10])"

declare digits10.simps [simp del]

definition digit_cu :: "nat \<Rightarrow> cu" where
  "digit_cu d = of_nat (48 + d)"

definition show_nat :: "nat \<Rightarrow> jsstring" where
  "show_nat n = map digit_cu (digits10 n)"

text \<open>\<open>Array.prototype.join\<close>.\<close>

fun join :: "jsstring \<Rightarrow> jsstring list \<Rightarrow> jsstring" where
  "join sep [] = []"
| "join sep [x] = x"
| "join sep (x # y # ys) = x @ sep @ join sep (y # ys)"

section \<open>Numbers of the host language\<close>

text \<open>
  A number of the host is an IEEE 754 double. The numbers of this program are the payloads
  of \<open>Integer\<close> tokens and nodes, which the tokenizer makes from character codes and with
  \<open>parseInt\<close>: whole numbers, \<open>Infinity\<close> for a run of digits that is too long, and
  \<open>NaN\<close> for an empty run. \<open>Finite i\<close> is the double whose value is the integer \<open>i\<close>
  (every double from \<open>2 ^ 53\<close> on is a whole number); the tokenizer makes it only for
  such \<open>i\<close> as are the value of a double. Fractions and the negative zero, which no code
  of this program makes, are left out.
\<close>

datatype number = Finite int | Infinity | NaN

text \<open>
  The double of a non-negative integer, as \<open>parseInt\<close> returns it for a run of digits: an
  integer below \<open>2 ^ 53\<close> is a double; a larger one is rounded to 53 significant bits, to
  the nearest such value and to the even one of two nearest; from \<open>2 ^ 1024\<close> on the
  result is \<open>Infinity\<close>.
\<close>

function bit_length :: "int \<Rightarrow> nat" where
  "bit_length v = (if v \<le> 0 then 0 else Suc (bit_length (v div 2)))"
  by pat_completeness auto
termination
  by (relation "measure nat") (auto intro: int_div_less_self)

declare bit_length.simps [simp del]

definition round_double :: "int \<Rightarrow> number" where
  "round_double v =
     (if v < 2 ^ 53 then Finite v
      else
        (let e = bit_length v - 53;
             q = v div 2 ^ e;
             r = v mod 2 ^ e;
             q' = (if 2 ^ e < 2 * r \<or> (2 * r = 2 ^ e \<and> odd q) then q + 1 else q)
         in if 2 ^ 1024 \<le> q' * 2 ^ e then Infinity else Finite (q' * 2 ^ e)))"

text \<open>
  The conversion of a number to a string, as a template literal applies it. For a whole
  number \<open>x\<close> it takes the shortest run of digits \<open>s\<close> such that \<open>s\<close> followed by \<open>m\<close>
  zeros is a number whose double is \<open>x\<close>, and of two such runs the one nearer to \<open>x\<close>
  (the even one when both are as near); at most 17 digits are ever needed. With \<open>n\<close> the
  number of digits of \<open>s\<close> plus \<open>m\<close>, the string is \<open>s\<close> and the zeros when
  \<open>n \<le> 21\<close>, and else the exponent notation: the first digit, a point and the other digits
  when there are any, \<open>e+\<close> and \<open>n - 1\<close>. Below \<open>2 ^ 53\<close> this is the decimal digits of
  \<open>x\<close>. A negative number has a minus sign before the string of its magnitude, and
  \<open>Infinity\<close> and \<open>NaN\<close> are spelled out.
\<close>

function int_digits :: "int \<Rightarrow> int list" where
  "int_digits v = (if v < 10 then [v] else int_digits (v div 10) @ [v mod 10])"
  by pat_completeness auto
termination
  by (relation "measure nat") (auto intro: int_div_less_self)

declare int_digits.simps [simp del]

definition digit_char :: "int \<Rightarrow> cu" where
  "digit_char d = of_int (48 + d)"

definition candidates :: "int \<Rightarrow> nat \<Rightarrow> int list" where
  "candidates x m =
     filter (\<lambda>s. round_double (s * 10 ^ m) = Finite x) [x div 10 ^ m, x div 10 ^ m + 1]"

definition closest :: "int \<Rightarrow> nat \<Rightarrow> int list \<Rightarrow> int" where
  "closest x m ss =
     (case ss of
        [] \<Rightarrow> x
      | [s] \<Rightarrow> s
      | lo # hi # _ \<Rightarrow>
          if x - lo * 10 ^ m < hi * 10 ^ m - x then lo
          else if hi * 10 ^ m - x < x - lo * 10 ^ m then hi
          else if even lo then lo
          else hi)"

definition shortest :: "int \<Rightarrow> int \<times> nat" where
  "shortest x =
     (let d = length (int_digits x) in
      case find (\<lambda>k. candidates x (d - k) \<noteq> []) [1 ..< Suc (min 17 d)] of
        None \<Rightarrow> (x, 0)
      | Some k \<Rightarrow> (closest x (d - k) (candidates x (d - k)), d - k))"

definition toString_whole :: "int \<Rightarrow> jsstring" where
  "toString_whole x =
     (if x < 2 ^ 53 then show_nat (nat x)
      else
        (case shortest x of
           (s, m) \<Rightarrow>
             (let ds = int_digits s; n = length ds + m in
              if n \<le> 21 then map digit_char ds @ replicate m (ch CHR ''0'')
              else
                (case rev (dropWhile (\<lambda>d. d = 0) (rev ds)) of
                   [] \<Rightarrow> []
                 | a # frac \<Rightarrow>
                     digit_char a
                       # (if frac = [] then [] else ch CHR ''.'' # map digit_char frac)
                       @ js ''e+'' @ show_nat (n - 1)))))"

fun Number_toString :: "number \<Rightarrow> jsstring" where
  "Number_toString Infinity = js ''Infinity''"
| "Number_toString NaN = js ''NaN''"
| "Number_toString (Finite i) =
     (if i < 0 then ch CHR ''-'' # toString_whole (- i) else toString_whole i)"

section \<open>Tokens and the tokenizer\<close>

text \<open>
  \<open>TokenType\<close> with the payloads of \<open>ValueToken\<close>. The payload of an \<open>Integer\<close> is a
  number of the host.
\<close>

datatype Token =
    Tok_Variable jsstring
  | Tok_String jsstring
  | Tok_Integer number
  | Tok_OpenBracket
  | Tok_CloseBracket
  | Tok_GetVar
  | Tok_SetVar
  | Tok_Dup
  | Tok_Discard
  | Tok_Swap
  | Tok_Rotate
  | Tok_Take
  | Tok_Plus
  | Tok_Minus
  | Tok_Mul
  | Tok_Div
  | Tok_Negate
  | Tok_BitAnd
  | Tok_BitOr
  | Tok_BitInvert
  | Tok_Equal
  | Tok_GreaterThan
  | Tok_Execute
  | Tok_ExecuteIf
  | Tok_While
  | Tok_Getc
  | Tok_Putc
  | Tok_PrintInt
  | Tok_Flush
  | Tok_Asm

text \<open>
  Every \<open>throw\<close> of the tokenizer and the parser is a value of \<open>error\<close>. The last
  constructor is the \<open>TypeError\<close> that the host raises when a property of \<open>null\<close> is
  read. \<open>message\<close> is the text of the thrown \<open>Error\<close>.
\<close>

datatype error =
    InvalidCharacter cu
  | UnclosedComment
  | ExpectedCharacter
  | ExpectedGot cu "cu option"
  | AssemblyNotSupported
  | ExpectedShort
  | NullTypeError

definition message :: "error \<Rightarrow> jsstring" where
  "message e = (case e of
      InvalidCharacter c \<Rightarrow> js ''Invalid character: '' @ [c]
    | UnclosedComment \<Rightarrow> js ''Unclosed comment''
    | ExpectedCharacter \<Rightarrow> js ''Expected a character''
    | ExpectedGot c got \<Rightarrow>
        js ''Expected '' @ [c] @ js '', got ''
          @ (case got of None \<Rightarrow> js ''undefined'' | Some g \<Rightarrow> [g]) @ js '' instead''
    | AssemblyNotSupported \<Rightarrow> js ''Assembly is not supported''
    | ExpectedShort \<Rightarrow> js ''Syntax error: Expected a short''
    | NullTypeError \<Rightarrow> js ''Cannot read properties of null (reading 'type')'')"

text \<open>\<open>Tokenizer.symbols\<close>, in the order of the source.\<close>

definition symbols :: "(cu \<times> Token) list" where
  "symbols =
    [ (ch CHR ''['', Tok_OpenBracket),
      (ch CHR '']'', Tok_CloseBracket),
      (ch CHR '';'', Tok_GetVar),
      (ch CHR '':'', Tok_SetVar),
      (ch CHR ''$'', Tok_Dup),
      (ch CHR ''%'', Tok_Discard),
      (ch (CHR 0x5C), Tok_Swap),
      (ch CHR ''@'', Tok_Rotate),
      (ch CHR ''O'', Tok_Take),
      (ch CHR ''+'', Tok_Plus),
      (ch CHR ''-'', Tok_Minus),
      (ch CHR ''*'', Tok_Mul),
      (ch CHR ''/'', Tok_Div),
      (ch CHR ''_'', Tok_Negate),
      (ch CHR ''&'', Tok_BitAnd),
      (ch CHR ''|'', Tok_BitOr),
      (ch CHR ''~'', Tok_BitInvert),
      (ch CHR ''='', Tok_Equal),
      (ch CHR ''>'', Tok_GreaterThan),
      (ch CHR ''!'', Tok_Execute),
      (ch CHR ''?'', Tok_ExecuteIf),
      (ch CHR ''#'', Tok_While),
      (ch CHR ''^'', Tok_Getc),
      (ch CHR '','', Tok_Putc),
      (ch CHR ''.'', Tok_PrintInt),
      (ch CHR ''B'', Tok_Flush),
      (ch (CHR 0x60), Tok_Asm) ]"

text \<open>
  The regular expression class \<open>\s\<close> of the host language: \<open>WhiteSpace\<close> and
  \<open>LineTerminator\<close> of ECMAScript, i.e. tab, line feed, vertical tab, form feed, carriage
  return, space, U+00A0, U+1680, U+2000 to U+200A, U+2028, U+2029, U+202F, U+205F, U+3000
  and U+FEFF.
\<close>

definition isWhitespace :: "cu \<Rightarrow> bool" where
  "isWhitespace c \<longleftrightarrow>
     c = 0x09 \<or> c = 0x0A \<or> c = 0x0B \<or> c = 0x0C \<or> c = 0x0D \<or> c = 0x20 \<or>
     c = 0xA0 \<or> c = 0x1680 \<or> (0x2000 \<le> c \<and> c \<le> 0x200A) \<or>
     c = 0x2028 \<or> c = 0x2029 \<or> c = 0x202F \<or> c = 0x205F \<or> c = 0x3000 \<or> c = 0xFEFF"

definition isDigit :: "cu \<Rightarrow> bool" where
  "isDigit c \<longleftrightarrow> ch CHR ''0'' \<le> c \<and> c \<le> ch CHR ''9''"

definition isLower :: "cu \<Rightarrow> bool" where
  "isLower c \<longleftrightarrow> ch CHR ''a'' \<le> c \<and> c \<le> ch CHR ''z''"

text \<open>
  The tokenizer's state is \<open>#source\<close> with \<open>#pos\<close>. It never reads before \<open>#pos\<close> and
  never moves \<open>#pos\<close> back, so the state is kept as the unread part of the source,
  \<open>source.substring(pos)\<close>: \<open>#currentChar\<close> is its head (\<open>undefined\<close> when it is empty),
  \<open>++pos\<close> drops the head, and \<open>pos < source.length\<close> says that it is not empty.
\<close>

definition currentChar :: "jsstring \<Rightarrow> cu option" where
  "currentChar src = (case src of [] \<Rightarrow> None | c # _ \<Rightarrow> Some c)"

text \<open>\<open>#eat(char, errorMessage?)\<close>\<close>

definition eat :: "cu \<Rightarrow> error option \<Rightarrow> jsstring \<Rightarrow> error + jsstring" where
  "eat c errorMessage src =
     (if currentChar src = Some c then Inr (tl src)
      else Inl (case errorMessage of Some e \<Rightarrow> e | None \<Rightarrow> ExpectedGot c (currentChar src)))"

text \<open>\<open>#skipComment\<close>: the loop, then \<open>#eat('}', "Unclosed comment")\<close>.\<close>

fun skipComment_loop :: "jsstring \<Rightarrow> jsstring" where
  "skipComment_loop [] = []"
| "skipComment_loop (c # cs) = (if c \<noteq> ch CHR ''}'' then skipComment_loop cs else c # cs)"

definition skipComment :: "jsstring \<Rightarrow> error + jsstring" where
  "skipComment src = eat (ch CHR ''}'') (Some UnclosedComment) (skipComment_loop src)"

text \<open>\<open>#nextVariable\<close>, called with a current character.\<close>

definition nextVariable :: "cu \<Rightarrow> jsstring \<Rightarrow> Token \<times> jsstring" where
  "nextVariable c rest = (Tok_Variable [c], rest)"

text \<open>
  \<open>#nextNumber\<close>: the loop returns the digits passed and what is left. \<open>parseInt\<close> is
  only ever applied to such a run of decimal digits, where it has no white space, sign or
  radix prefix to skip: its result is the double of the integer that the run denotes
  (\<open>digits_value\<close>), and \<open>NaN\<close> when the run is empty.
\<close>

fun nextNumber_loop :: "jsstring \<Rightarrow> jsstring \<times> jsstring" where
  "nextNumber_loop [] = ([], [])"
| "nextNumber_loop (c # cs) =
     (if isDigit c then (case nextNumber_loop cs of (ds, rest) \<Rightarrow> (c # ds, rest))
      else ([], c # cs))"

definition digits_value :: "jsstring \<Rightarrow> int" where
  "digits_value ds = foldl (\<lambda>acc d. 10 * acc + (uint d - 48)) 0 ds"

definition parseInt :: "jsstring \<Rightarrow> number" where
  "parseInt ds = (if ds = [] then NaN else round_double (digits_value ds))"

definition nextNumber :: "jsstring \<Rightarrow> Token \<times> jsstring" where
  "nextNumber src = (case nextNumber_loop src of (ds, rest) \<Rightarrow> (Tok_Integer (parseInt ds), rest))"

text \<open>\<open>#nextChar\<close>; \<open>charCodeAt(0)\<close> is the code unit read as a number.\<close>

definition nextChar :: "jsstring \<Rightarrow> error + Token \<times> jsstring" where
  "nextChar src =
     (case eat (0x27) None src of
        Inl e \<Rightarrow> Inl e
      | Inr src1 \<Rightarrow>
          (case src1 of
             c # rest \<Rightarrow> Inr (Tok_Integer (Finite (uint c)), rest)
           | [] \<Rightarrow> Inl ExpectedCharacter))"

text \<open>\<open>#nextString\<close>\<close>

fun nextString_loop :: "jsstring \<Rightarrow> jsstring \<times> jsstring" where
  "nextString_loop [] = ([], [])"
| "nextString_loop (c # cs) =
     (if c \<noteq> 0x22 then (case nextString_loop cs of (s, rest) \<Rightarrow> (c # s, rest))
      else ([], c # cs))"

definition nextString :: "jsstring \<Rightarrow> error + Token \<times> jsstring" where
  "nextString src =
     (case eat 0x22 None src of
        Inl e \<Rightarrow> Inl e
      | Inr src1 \<Rightarrow>
          (case nextString_loop src1 of
             (result, src2) \<Rightarrow>
               (case eat 0x22 None src2 of
                  Inl e \<Rightarrow> Inl e
                | Inr src3 \<Rightarrow> Inr (Tok_String result, src3))))"

lemma skipComment_loop_length: "length (skipComment_loop src) \<le> length src"
  by (induction src) auto

lemma skipComment_shorter: "skipComment src = Inr r \<Longrightarrow> length r < Suc (length src)"
  using skipComment_loop_length [of src]
  by (cases "skipComment_loop src") (auto simp: skipComment_def eat_def currentChar_def split: if_splits)

text \<open>
  \<open>Tokenizer.next\<close>: \<open>Inr (Some t, rest)\<close> is \<open>{ value: t }\<close>, \<open>Inr (None, rest)\<close> is
  \<open>{ value: null, done: true }\<close>.
\<close>

function tokenizer_next :: "jsstring \<Rightarrow> error + Token option \<times> jsstring" where
  "tokenizer_next [] = Inr (None, [])"
| "tokenizer_next (c # cs) =
     (if isWhitespace c then tokenizer_next cs
      else if c = ch CHR ''{'' then
        (case skipComment (c # cs) of Inl e \<Rightarrow> Inl e | Inr rest \<Rightarrow> tokenizer_next rest)
      else if c = 0x27 then
        (case nextChar (c # cs) of Inl e \<Rightarrow> Inl e | Inr (t, rest) \<Rightarrow> Inr (Some t, rest))
      else if c = 0x22 then
        (case nextString (c # cs) of Inl e \<Rightarrow> Inl e | Inr (t, rest) \<Rightarrow> Inr (Some t, rest))
      else if isDigit c then
        (case nextNumber (c # cs) of (t, rest) \<Rightarrow> Inr (Some t, rest))
      else if isLower c then
        (case nextVariable c cs of (t, rest) \<Rightarrow> Inr (Some t, rest))
      else
        (case map_of symbols c of
           Some symb \<Rightarrow> Inr (Some symb, cs)
         | None \<Rightarrow> Inl (InvalidCharacter c)))"
  by pat_completeness auto
termination
proof (relation "measure length")
  show "wf (measure length)" by simp
next
  fix c :: cu and cs :: jsstring
  show "(cs, c # cs) \<in> measure length" by simp
next
  fix c :: cu and cs rest :: jsstring
  assume "\<not> isWhitespace c" and "c = ch CHR ''{''" and "skipComment (c # cs) = Inr rest"
  then have "skipComment_loop (c # cs) = skipComment_loop cs"
    by (simp add: ch_def)
  with \<open>skipComment (c # cs) = Inr rest\<close> have "skipComment cs = Inr rest"
    by (simp add: skipComment_def)
  then show "(rest, c # cs) \<in> measure length"
    using skipComment_shorter [of cs rest] by simp
qed

declare tokenizer_next.simps [simp del]

section \<open>The AST and the parser\<close>

text \<open>\<open>AstNode\<close>: \<open>AstType\<close> with the payloads of \<open>ValueAst\<close>.\<close>

datatype AstNode =
    Variable jsstring
  | String jsstring
  | Integer number
  | Quote "AstNode list"
  | GetVar
  | SetVar
  | Dup
  | Discard
  | Swap
  | Rotate
  | Take
  | Plus
  | Minus
  | Mul
  | Div
  | Negate
  | BitAnd
  | BitOr
  | BitInvert
  | Equal
  | GreaterThan
  | Execute
  | ExecuteIf
  | While
  | Getc
  | Putc
  | PrintInt

text \<open>
  The parser's state: the tokenizer it pulls from and \<open>#currentToken\<close> (\<open>None\<close> is
  \<open>null\<close>).
\<close>

record Parser =
  tokenizer :: jsstring
  currentToken :: "Token option"

text \<open>\<open>Parser.#next\<close>\<close>

definition parser_next :: "Parser \<Rightarrow> error + Parser" where
  "parser_next p =
     (case tokenizer_next (tokenizer p) of
        Inl e \<Rightarrow> Inl e
      | Inr (v, rest) \<Rightarrow> Inr \<lparr>tokenizer = rest, currentToken = v\<rparr>)"

text \<open>
  The \<open>switch\<close> of \<open>parseStatements\<close> has five kinds of branch: \<open>instr(type, value)\<close>,
  the open bracket, the close bracket, the no-op and the assembly form. \<open>branch_of\<close> is the
  table of its \<open>case\<close> labels, in the order of the source.
\<close>

datatype branch = Instr AstNode | Open | Close | NoOp | Assembly

fun branch_of :: "Token \<Rightarrow> branch" where
  "branch_of (Tok_Variable v) = Instr (Variable v)"
| "branch_of (Tok_String s) = Instr (String s)"
| "branch_of (Tok_Integer n) = Instr (Integer n)"
| "branch_of Tok_OpenBracket = Open"
| "branch_of Tok_CloseBracket = Close"
| "branch_of Tok_GetVar = Instr GetVar"
| "branch_of Tok_SetVar = Instr SetVar"
| "branch_of Tok_Dup = Instr Dup"
| "branch_of Tok_Discard = Instr Discard"
| "branch_of Tok_Swap = Instr Swap"
| "branch_of Tok_Rotate = Instr Rotate"
| "branch_of Tok_Take = Instr Take"
| "branch_of Tok_Plus = Instr Plus"
| "branch_of Tok_Minus = Instr Minus"
| "branch_of Tok_Mul = Instr Mul"
| "branch_of Tok_Div = Instr Div"
| "branch_of Tok_Negate = Instr Negate"
| "branch_of Tok_BitAnd = Instr BitAnd"
| "branch_of Tok_BitOr = Instr BitOr"
| "branch_of Tok_BitInvert = Instr BitInvert"
| "branch_of Tok_Equal = Instr Equal"
| "branch_of Tok_GreaterThan = Instr GreaterThan"
| "branch_of Tok_Execute = Instr Execute"
| "branch_of Tok_ExecuteIf = Instr ExecuteIf"
| "branch_of Tok_While = Instr While"
| "branch_of Tok_Getc = Instr Getc"
| "branch_of Tok_Putc = Instr Putc"
| "branch_of Tok_PrintInt = Instr PrintInt"
| "branch_of Tok_Flush = NoOp"
| "branch_of Tok_Asm = Assembly"

text \<open>
  The assembly form: \<open>#next\<close>, then \<open>this.#currentToken.type\<close> is read. When the pull
  reached the end of the input, \<open>#currentToken\<close> is \<open>null\<close> and the read raises the
  host's \<open>TypeError\<close>. Otherwise an \<open>Integer\<close> leads to one more \<open>#next\<close> and then to
  "Assembly is not supported", any other token to "Syntax error: Expected a short".
\<close>

definition isInteger :: "Token \<Rightarrow> bool" where
  "isInteger t = (case t of Tok_Integer _ \<Rightarrow> True | _ \<Rightarrow> False)"

definition parseAsm :: "Parser \<Rightarrow> error" where
  "parseAsm p =
     (case parser_next p of
        Inl e \<Rightarrow> e
      | Inr p1 \<Rightarrow>
          (case currentToken p1 of
             None \<Rightarrow> NullTypeError
           | Some t \<Rightarrow>
               if isInteger t then
                 (case parser_next p1 of Inl e \<Rightarrow> e | Inr _ \<Rightarrow> AssemblyNotSupported)
               else ExpectedShort))"

text \<open>
  The measure for the loop of \<open>parseStatements\<close>: every pull that yields a token shortens
  the unread source, and the pull that reaches the end clears \<open>#currentToken\<close>.
\<close>

definition parser_size :: "Parser \<Rightarrow> nat" where
  "parser_size p = 2 * length (tokenizer p) + (if currentToken p = None then 0 else 1)"

lemma nextNumber_loop_length: "nextNumber_loop src = (ds, rest) \<Longrightarrow> length rest \<le> length src"
  by (induction src arbitrary: ds rest) (auto split: if_splits prod.splits)

lemma nextString_loop_length: "nextString_loop src = (s, rest) \<Longrightarrow> length rest \<le> length src"
  by (induction src arbitrary: s rest) (auto split: if_splits prod.splits)

lemma eat_length: "eat c m src = Inr rest \<Longrightarrow> Suc (length rest) = length src"
  by (cases src) (auto simp: eat_def currentChar_def split: if_splits)

lemma nextChar_length: "nextChar src = Inr (t, rest) \<Longrightarrow> length rest < length src"
  by (auto simp: nextChar_def split: sum.splits list.splits dest!: eat_length)

lemma nextString_length: "nextString src = Inr (t, rest) \<Longrightarrow> length rest < length src"
  by (auto simp: nextString_def split: sum.splits prod.splits
      dest!: eat_length nextString_loop_length)

lemma nextNumber_length:
  "isDigit c \<Longrightarrow> nextNumber (c # cs) = (t, rest) \<Longrightarrow> length rest < length (c # cs)"
  by (auto simp: nextNumber_def split: prod.splits dest!: nextNumber_loop_length)

lemma tokenizer_next_Some_length:
  "tokenizer_next src = Inr (Some t, rest) \<Longrightarrow> length rest < length src"
proof (induction src rule: tokenizer_next.induct)
  case 1
  then show ?case by (simp add: tokenizer_next.simps)
next
  case (2 c cs)
  show ?case
  proof (cases "isWhitespace c")
    case True
    with 2 show ?thesis by (simp add: tokenizer_next.simps)
  next
    case ws: False
    show ?thesis
    proof (cases "c = ch CHR ''{''")
      case True
      with ws 2 show ?thesis
        by (auto simp: tokenizer_next.simps split: sum.splits dest!: skipComment_shorter)
    next
      case False
      with ws "2.prems" show ?thesis
        by (auto simp: tokenizer_next.simps nextVariable_def
            split: sum.splits prod.splits if_splits option.splits
            dest: nextChar_length nextString_length nextNumber_length)
    qed
  qed
qed

lemma tokenizer_next_length:
  "tokenizer_next src = Inr (v, rest) \<Longrightarrow> length rest \<le> length src"
proof (induction src rule: tokenizer_next.induct)
  case 1
  then show ?case by (simp add: tokenizer_next.simps)
next
  case (2 c cs)
  show ?case
  proof (cases v)
    case None
    with 2 show ?thesis
      by (auto simp: tokenizer_next.simps split: sum.splits prod.splits if_splits option.splits
          dest!: skipComment_shorter)
  next
    case (Some t)
    with "2.prems" tokenizer_next_Some_length [of "c # cs" t rest] show ?thesis by simp
  qed
qed

lemma parser_next_cases:
  assumes "parser_next p = Inr p'"
  obtains rest where "tokenizer_next (tokenizer p) = Inr (None, rest)"
      and "p' = \<lparr>tokenizer = rest, currentToken = None\<rparr>"
      and "length rest \<le> length (tokenizer p)"
    | t rest where "tokenizer_next (tokenizer p) = Inr (Some t, rest)"
      and "p' = \<lparr>tokenizer = rest, currentToken = Some t\<rparr>"
      and "length rest < length (tokenizer p)"
proof -
  from assms obtain v rest where t: "tokenizer_next (tokenizer p) = Inr (v, rest)"
    and p': "p' = \<lparr>tokenizer = rest, currentToken = v\<rparr>"
    by (auto simp: parser_next_def split: sum.splits prod.splits)
  show thesis
  proof (cases v)
    case None
    with t p' tokenizer_next_length [OF t] that(1) show thesis by simp
  next
    case (Some tok)
    with t p' tokenizer_next_Some_length [of "tokenizer p" tok rest] that(2) show thesis by simp
  qed
qed

lemma parser_next_size: "parser_next p = Inr p' \<Longrightarrow> parser_size p' \<le> parser_size p"
  by (erule parser_next_cases) (auto simp: parser_size_def)

lemma parser_next_size_less:
  "parser_next p = Inr p' \<Longrightarrow> currentToken p \<noteq> None \<Longrightarrow> parser_size p' < parser_size p"
  by (erule parser_next_cases) (auto simp: parser_size_def)

text \<open>
  \<open>Parser.parseStatements\<close>. \<open>parseStatements_loop\<close> is the labelled \<open>while\<close> loop with
  the local array \<open>statements\<close>; \<open>instr\<close> pushes the node and pulls the next token. The
  result is the returned array and the parser's state at the return.
\<close>

function parseStatements_loop :: "AstNode list \<Rightarrow> Parser \<Rightarrow> error + AstNode list \<times> Parser" where
  "parseStatements_loop statements p =
     (case currentToken p of
        None \<Rightarrow> Inr (statements, p)
      | Some tok \<Rightarrow>
          (case branch_of tok of
             Instr node \<Rightarrow>
               (case parser_next p of
                  Inl e \<Rightarrow> Inl e
                | Inr p1 \<Rightarrow> parseStatements_loop (statements @ [node]) p1)
           | Open \<Rightarrow>
               (case parser_next p of
                  Inl e \<Rightarrow> Inl e
                | Inr p1 \<Rightarrow>
                    (case parseStatements_loop [] p1 of
                       Inl e \<Rightarrow> Inl e
                     | Inr (body, p2) \<Rightarrow>
                         (case parser_next p2 of
                            Inl e \<Rightarrow> Inl e
                          | Inr p3 \<Rightarrow> parseStatements_loop (statements @ [Quote body]) p3)))
           | Close \<Rightarrow> Inr (statements, p)
           | NoOp \<Rightarrow>
               (case parser_next p of
                  Inl e \<Rightarrow> Inl e
                | Inr p1 \<Rightarrow> parseStatements_loop statements p1)
           | Assembly \<Rightarrow> Inl (parseAsm p)))"
  by pat_completeness auto

lemma parseStatements_loop_dom_size:
  "parseStatements_loop_dom (statements, p) \<Longrightarrow>
   parseStatements_loop statements p = Inr (res, p') \<Longrightarrow> parser_size p' \<le> parser_size p"
proof (induction statements p arbitrary: res p' rule: parseStatements_loop.pinduct)
  case (1 statements p)
  show ?case
  proof (cases "currentToken p")
    case None
    with "1.prems" "1.hyps" show ?thesis by (simp add: parseStatements_loop.psimps)
  next
    case (Some tok)
    show ?thesis
    proof (cases "branch_of tok")
      case (Instr node)
      with Some "1.prems" "1.hyps" obtain p1 where
        n: "parser_next p = Inr p1" and
        r: "parseStatements_loop (statements @ [node]) p1 = Inr (res, p')"
        by (auto simp: parseStatements_loop.psimps split: sum.splits)
      from "1.IH"(1) [OF Some Instr n r] parser_next_size [OF n] show ?thesis by simp
    next
      case Open
      with Some "1.prems" "1.hyps" obtain p1 body p2 p3 where
        n: "parser_next p = Inr p1" and
        b: "parseStatements_loop [] p1 = Inr (body, p2)" and
        n2: "parser_next p2 = Inr p3" and
        r: "parseStatements_loop (statements @ [Quote body]) p3 = Inr (res, p')"
        by (auto simp: parseStatements_loop.psimps split: sum.splits prod.splits)
      from "1.IH"(2) [OF Some Open n b] have "parser_size p2 \<le> parser_size p1" .
      moreover from "1.IH"(3) [OF Some Open n b refl n2 r]
      have "parser_size p' \<le> parser_size p3" .
      ultimately show ?thesis
        using parser_next_size [OF n] parser_next_size [OF n2] by simp
    next
      case Close
      with Some "1.prems" "1.hyps" show ?thesis by (simp add: parseStatements_loop.psimps)
    next
      case NoOp
      with Some "1.prems" "1.hyps" obtain p1 where
        n: "parser_next p = Inr p1" and
        r: "parseStatements_loop statements p1 = Inr (res, p')"
        by (auto simp: parseStatements_loop.psimps split: sum.splits)
      from "1.IH"(4) [OF Some NoOp n r] parser_next_size [OF n] show ?thesis by simp
    next
      case Assembly
      with Some "1.prems" "1.hyps" show ?thesis by (simp add: parseStatements_loop.psimps)
    qed
  qed
qed

termination parseStatements_loop
proof (relation "measure (\<lambda>(statements, p). parser_size p)")
  show "wf (measure (\<lambda>(statements, p). parser_size p))" by simp
next
  fix statements :: "AstNode list" and p tok node p1
  assume "currentToken p = Some tok" and "parser_next p = Inr p1"
  then show "((statements @ [node], p1), (statements, p)) \<in> measure (\<lambda>(statements, p). parser_size p)"
    using parser_next_size_less [of p p1] by simp
next
  fix statements :: "AstNode list" and p tok p1
  assume "currentToken p = Some tok" and "parser_next p = Inr p1"
  then show "(([], p1), (statements, p)) \<in> measure (\<lambda>(statements, p). parser_size p)"
    using parser_next_size_less [of p p1] by simp
next
  fix statements :: "AstNode list" and p tok p1 x2 body p2 p3
  assume "currentToken p = Some tok" and n: "parser_next p = Inr p1"
    and b: "parseStatements_loop [] p1 = Inr x2" and x: "(body, p2) = x2"
    and n2: "parser_next p2 = Inr p3" and d: "parseStatements_loop_dom ([], p1)"
  from b x have "parseStatements_loop [] p1 = Inr (body, p2)" by simp
  from parseStatements_loop_dom_size [OF d this] parser_next_size [OF n2]
    parser_next_size_less [OF n] \<open>currentToken p = Some tok\<close>
  show "((statements @ [Quote body], p3), (statements, p)) \<in> measure (\<lambda>(statements, p). parser_size p)"
    by simp
next
  fix statements :: "AstNode list" and p tok p1
  assume "currentToken p = Some tok" and "parser_next p = Inr p1"
  then show "((statements, p1), (statements, p)) \<in> measure (\<lambda>(statements, p). parser_size p)"
    using parser_next_size_less [of p p1] by simp
qed

declare parseStatements_loop.simps [simp del]

text \<open>The loop, one round at a time.\<close>

lemma parseStatements_loop_None:
  "currentToken p = None \<Longrightarrow> parseStatements_loop statements p = Inr (statements, p)"
  by (subst parseStatements_loop.simps) simp

lemma parseStatements_loop_Instr:
  "currentToken p = Some tok \<Longrightarrow> branch_of tok = Instr node \<Longrightarrow>
   parseStatements_loop statements p =
     (case parser_next p of
        Inl e \<Rightarrow> Inl e
      | Inr p1 \<Rightarrow> parseStatements_loop (statements @ [node]) p1)"
  by (subst parseStatements_loop.simps) simp

lemma parseStatements_loop_Open:
  "currentToken p = Some tok \<Longrightarrow> branch_of tok = Open \<Longrightarrow>
   parseStatements_loop statements p =
     (case parser_next p of
        Inl e \<Rightarrow> Inl e
      | Inr p1 \<Rightarrow>
          (case parseStatements_loop [] p1 of
             Inl e \<Rightarrow> Inl e
           | Inr (body, p2) \<Rightarrow>
               (case parser_next p2 of
                  Inl e \<Rightarrow> Inl e
                | Inr p3 \<Rightarrow> parseStatements_loop (statements @ [Quote body]) p3)))"
  by (subst parseStatements_loop.simps) simp

lemma parseStatements_loop_Close:
  "currentToken p = Some tok \<Longrightarrow> branch_of tok = Close \<Longrightarrow>
   parseStatements_loop statements p = Inr (statements, p)"
  by (subst parseStatements_loop.simps) simp

lemma parseStatements_loop_NoOp:
  "currentToken p = Some tok \<Longrightarrow> branch_of tok = NoOp \<Longrightarrow>
   parseStatements_loop statements p =
     (case parser_next p of
        Inl e \<Rightarrow> Inl e
      | Inr p1 \<Rightarrow> parseStatements_loop statements p1)"
  by (subst parseStatements_loop.simps) simp

lemma parseStatements_loop_Assembly:
  "currentToken p = Some tok \<Longrightarrow> branch_of tok = Assembly \<Longrightarrow>
   parseStatements_loop statements p = Inl (parseAsm p)"
  by (subst parseStatements_loop.simps) simp

text \<open>The rounds of a loop that returns.\<close>

lemma parseStatements_loop_returns:
  assumes "parseStatements_loop statements p = Inr (res, p')"
  obtains
    (Done) "currentToken p = None" and "res = statements" and "p' = p"
  | (Instr) tok node p1 where "currentToken p = Some tok" and "branch_of tok = Instr node"
      and "parser_next p = Inr p1"
      and "parseStatements_loop (statements @ [node]) p1 = Inr (res, p')"
  | (Open) tok p1 body p2 p3 where "currentToken p = Some tok" and "branch_of tok = Open"
      and "parser_next p = Inr p1" and "parseStatements_loop [] p1 = Inr (body, p2)"
      and "parser_next p2 = Inr p3"
      and "parseStatements_loop (statements @ [Quote body]) p3 = Inr (res, p')"
  | (Close) tok where "currentToken p = Some tok" and "branch_of tok = Close"
      and "res = statements" and "p' = p"
  | (NoOp) tok p1 where "currentToken p = Some tok" and "branch_of tok = NoOp"
      and "parser_next p = Inr p1" and "parseStatements_loop statements p1 = Inr (res, p')"
proof (cases "currentToken p")
  case None
  with assms have "res = statements" and "p' = p"
    by (simp_all add: parseStatements_loop_None)
  with None show thesis by (rule that(1))
next
  case (Some tok)
  show thesis
  proof (cases "branch_of tok")
    case (Instr node)
    with assms Some obtain p1 where "parser_next p = Inr p1"
      and "parseStatements_loop (statements @ [node]) p1 = Inr (res, p')"
      by (auto simp: parseStatements_loop_Instr split: sum.splits)
    with Some Instr show thesis by (rule that(2))
  next
    case Open
    with assms Some obtain p1 body p2 p3 where "parser_next p = Inr p1"
      and "parseStatements_loop [] p1 = Inr (body, p2)" and "parser_next p2 = Inr p3"
      and "parseStatements_loop (statements @ [Quote body]) p3 = Inr (res, p')"
      by (auto simp: parseStatements_loop_Open split: sum.splits prod.splits)
    with Some Open show thesis by (rule that(3))
  next
    case Close
    with assms Some have "res = statements" and "p' = p"
      by (simp_all add: parseStatements_loop_Close)
    with Some Close show thesis by (rule that(4))
  next
    case NoOp
    with assms Some obtain p1 where "parser_next p = Inr p1"
      and "parseStatements_loop statements p1 = Inr (res, p')"
      by (auto simp: parseStatements_loop_NoOp split: sum.splits)
    with Some NoOp show thesis by (rule that(5))
  next
    case Assembly
    with assms Some show thesis
      by (simp add: parseStatements_loop_Assembly)
  qed
qed

definition parseStatements :: "Parser \<Rightarrow> error + AstNode list \<times> Parser" where
  "parseStatements p = parseStatements_loop [] p"

text \<open>
  \<open>parse\<close>: the constructor of \<open>Parser\<close> pulls the first token, then \<open>parseStatements\<close>
  runs. \<open>parse_run\<close> also gives the parser's state at the return.
\<close>

definition parse_run :: "jsstring \<Rightarrow> error + AstNode list \<times> Parser" where
  "parse_run source =
     (case parser_next \<lparr>tokenizer = source, currentToken = None\<rparr> of
        Inl e \<Rightarrow> Inl e
      | Inr p \<Rightarrow> parseStatements p)"

definition parse :: "jsstring \<Rightarrow> error + AstNode list" where
  "parse source = (case parse_run source of Inl e \<Rightarrow> Inl e | Inr (ast, p) \<Rightarrow> Inr ast)"

section \<open>The code generator\<close>

subsection \<open>Helpers\<close>

text \<open>
  \<open>TextEncoder.encode\<close> of the host: the UTF-8 bytes of a string of UTF-16 code units. A
  surrogate pair is one code point of four bytes; a lone surrogate is encoded as U+FFFD.
\<close>

definition isHighSurrogate :: "cu \<Rightarrow> bool" where
  "isHighSurrogate c \<longleftrightarrow> 0xD800 \<le> c \<and> c \<le> 0xDBFF"

definition isLowSurrogate :: "cu \<Rightarrow> bool" where
  "isLowSurrogate c \<longleftrightarrow> 0xDC00 \<le> c \<and> c \<le> 0xDFFF"

definition utf8_code_point :: "nat \<Rightarrow> nat list" where
  "utf8_code_point u =
     (if u < 0x80 then [u]
      else if u < 0x800 then [0xC0 + u div 64, 0x80 + u mod 64]
      else if u < 0x10000 then [0xE0 + u div 4096, 0x80 + (u div 64) mod 64, 0x80 + u mod 64]
      else [0xF0 + u div 262144, 0x80 + (u div 4096) mod 64, 0x80 + (u div 64) mod 64,
            0x80 + u mod 64])"

fun encode :: "jsstring \<Rightarrow> nat list" where
  "encode [] = []"
| "encode (c # cs) =
     (if isHighSurrogate c then
        (case cs of
           [] \<Rightarrow> utf8_code_point 0xFFFD
         | d # ds \<Rightarrow>
             if isLowSurrogate d then
               utf8_code_point (0x10000 + (unat c - 0xD800) * 1024 + (unat d - 0xDC00)) @ encode ds
             else utf8_code_point 0xFFFD @ encode cs)
      else if isLowSurrogate c then utf8_code_point 0xFFFD @ encode cs
      else utf8_code_point (unat c) @ encode cs)"

text \<open>\<open>code.toString(16)\<close> for a byte, and the padding of \<open>encode_string\<close>.\<close>

definition hex_digit :: "nat \<Rightarrow> cu" where
  "hex_digit d = (if d < 10 then of_nat (48 + d) else of_nat (87 + d))"

definition toString16 :: "nat \<Rightarrow> jsstring" where
  "toString16 code =
     (if code < 16 then [hex_digit code] else [hex_digit (code div 16), hex_digit (code mod 16)])"

definition hex_escape :: "nat \<Rightarrow> jsstring" where
  "hex_escape code =
     (let hex = toString16 code;
          hex = (if length hex = 1 then ch CHR ''0'' # hex else hex)
      in ch (CHR 0x5C) # hex)"

definition encode_string :: "jsstring \<Rightarrow> nat \<times> jsstring" where
  "encode_string str =
     (let enc = encode str;
          enc_str = concat (map hex_escape enc)
      in (length enc + 1, enc_str @ ch (CHR 0x5C) # js ''00''))"

definition varName :: "jsstring \<Rightarrow> jsstring" where
  "varName name = js ''@var_'' @ name"

text \<open>
  \<open>astEqual\<close> takes two values of \<open>AstNode['value']\<close>: a string, a number, an array of
  nodes or \<open>undefined\<close>. \<open>node_type\<close> is the member of \<open>AstType\<close> (its number),
  \<open>node_value\<close> the \<open>value\<close> field.
\<close>

datatype val = V_string jsstring | V_number number | V_array "AstNode list" | V_undefined

datatype jstype = T_string | T_number | T_object | T_undefined

fun typeof :: "val \<Rightarrow> jstype" where
  "typeof (V_string _) = T_string"
| "typeof (V_number _) = T_number"
| "typeof (V_array _) = T_object"
| "typeof V_undefined = T_undefined"

fun isArray :: "val \<Rightarrow> bool" where
  "isArray (V_array _) = True"
| "isArray _ = False"

fun node_value :: "AstNode \<Rightarrow> val" where
  "node_value (Variable v) = V_string v"
| "node_value (String s) = V_string s"
| "node_value (Integer n) = V_number n"
| "node_value (Quote body) = V_array body"
| "node_value _ = V_undefined"

fun node_type :: "AstNode \<Rightarrow> nat" where
  "node_type (Variable _) = 0"
| "node_type (String _) = 1"
| "node_type (Integer _) = 2"
| "node_type (Quote _) = 3"
| "node_type GetVar = 4"
| "node_type SetVar = 5"
| "node_type Dup = 6"
| "node_type Discard = 7"
| "node_type Swap = 8"
| "node_type Rotate = 9"
| "node_type Take = 10"
| "node_type Plus = 11"
| "node_type Minus = 12"
| "node_type Mul = 13"
| "node_type Div = 14"
| "node_type Negate = 15"
| "node_type BitAnd = 16"
| "node_type BitOr = 17"
| "node_type BitInvert = 18"
| "node_type Equal = 19"
| "node_type GreaterThan = 20"
| "node_type Execute = 21"
| "node_type ExecuteIf = 22"
| "node_type While = 23"
| "node_type Getc = 24"
| "node_type Putc = 25"
| "node_type PrintInt = 26"

fun val_size :: "val \<Rightarrow> nat" where
  "val_size (V_array xs) = Suc (size_list size xs)"
| "val_size _ = 0"

lemma val_size_first: "0 < length xs \<Longrightarrow> val_size (node_value (xs ! 0)) < val_size (V_array xs)"
proof (cases xs)
  case Nil
  then show "0 < length xs \<Longrightarrow> ?thesis" by simp
next
  case (Cons x xs')
  then show ?thesis by (cases x) simp_all
qed

text \<open>
  \<open>===\<close> on the values that are not arrays: strings and numbers are compared by value,
  and \<open>NaN\<close> is equal to nothing, itself included.
\<close>

definition strict_equals :: "val \<Rightarrow> val \<Rightarrow> bool" where
  "strict_equals a b = (a = b \<and> a \<noteq> V_number NaN)"

text \<open>
  The \<open>for\<close> loop of \<open>astEqual\<close> returns in its first round, from either branch of its
  body: when the arrays are not empty the result is that of the elements at index 0, and
  the loop's \<open>return true\<close> is reached only for empty arrays.
\<close>

function astEqual :: "val \<Rightarrow> val \<Rightarrow> bool" where
  "astEqual a b =
     (if typeof a \<noteq> typeof b then False
      else if \<not> (isArray a \<and> isArray b) then strict_equals a b
      else
        (case a of
           V_array xs \<Rightarrow>
             (case b of
                V_array ys \<Rightarrow>
                  if length xs \<noteq> length ys then False
                  else if 0 < length xs then
                    (if node_type (xs ! 0) \<noteq> node_type (ys ! 0) then False
                     else astEqual (node_value (xs ! 0)) (node_value (ys ! 0)))
                  else True
              | _ \<Rightarrow> strict_equals a b)
         | _ \<Rightarrow> strict_equals a b))"
  by pat_completeness auto
termination
  by (relation "measure (\<lambda>(a, b). val_size a)") (auto simp: val_size_first simp del: val_size.simps)

declare astEqual.simps [simp del]

text \<open>
  \<open>TemporaryGenerator\<close> with a string template: the state is \<open>#id\<close>, which starts at 1;
  \<open>next()\<close> returns the template followed by the id and increments the id.
\<close>

definition generator_next :: "jsstring \<Rightarrow> nat \<Rightarrow> jsstring \<times> nat" where
  "generator_next template ident = (template @ show_nat ident, ident + 1)"

text \<open>
  The fields of \<open>Compiler\<close>; \<open>functions'\<close> is \<open>#functions\<close>. \<open>#strings\<close> is a \<open>Map\<close>, which keeps its entries in the
  order of insertion: an association list with unique keys.
\<close>

record Compiler =
  functions' :: "(AstNode list \<times> jsstring \<times> jsstring) list"
  strings :: "(jsstring \<times> jsstring) list"
  lambdaNameGenerator :: nat
  stringNameGenerator :: nat

definition new_Compiler :: Compiler where
  "new_Compiler = \<lparr>functions' = [], strings = [], lambdaNameGenerator = 1, stringNameGenerator = 1\<rparr>"

text \<open>The locals of one call of \<open>#compile\<close>.\<close>

record Locals =
  temporaryGenerator :: nat
  labelGenerator :: nat
  instructions :: "jsstring list"

definition new_Locals :: Locals where
  "new_Locals = \<lparr>temporaryGenerator = 1, labelGenerator = 1, instructions = []\<rparr>"

definition temporary :: "Locals \<Rightarrow> jsstring \<times> Locals" where
  "temporary l =
     (case generator_next (js ''%t'') (temporaryGenerator l) of
        (name, ident) \<Rightarrow> (name, l\<lparr>temporaryGenerator := ident\<rparr>))"

definition label :: "Locals \<Rightarrow> jsstring \<times> Locals" where
  "label l =
     (case generator_next (js ''label_'') (labelGenerator l) of
        (name, ident) \<Rightarrow> (name, l\<lparr>labelGenerator := ident\<rparr>))"

definition push :: "jsstring list \<Rightarrow> Locals \<Rightarrow> Locals" where
  "push lines l = l\<lparr>instructions := instructions l @ lines\<rparr>"

text \<open>\<open>Compiler.#getConstString\<close>\<close>

definition getConstString :: "jsstring \<Rightarrow> Compiler \<Rightarrow> jsstring \<times> Compiler" where
  "getConstString str c =
     (case map_of (strings c) str of
        Some name \<Rightarrow> (name, c)
      | None \<Rightarrow>
          (case generator_next (js ''@str_'') (stringNameGenerator c) of
             (name, ident) \<Rightarrow>
               (name, c\<lparr>strings := strings c @ [(str, name)], stringNameGenerator := ident\<rparr>)))"

text \<open>The local functions \<open>basicOp\<close> and \<open>cmp\<close> of \<open>#compile\<close>.\<close>

definition basicOp :: "jsstring \<Rightarrow> Locals \<Rightarrow> Locals" where
  "basicOp op l =
     (case temporary l of (second, l) \<Rightarrow>
      case temporary l of (first, l) \<Rightarrow>
      case temporary l of (result, l) \<Rightarrow>
        push
          [ second @ js '' = call i32 @stack_pop_int()'',
            first @ js '' = call i32 @stack_pop_int()'',
            result @ js '' = '' @ op @ js '' i32 '' @ first @ js '', '' @ second,
            js ''call void @stack_push_int(i32 '' @ result @ js '')'' ] l)"

definition cmp :: "jsstring \<Rightarrow> Locals \<Rightarrow> Locals" where
  "cmp op l =
     (case temporary l of (second, l) \<Rightarrow>
      case temporary l of (first, l) \<Rightarrow>
      case temporary l of (result, l) \<Rightarrow>
      case temporary l of (cast, l) \<Rightarrow>
        push
          [ second @ js '' = call i32 @stack_pop_int()'',
            first @ js '' = call i32 @stack_pop_int()'',
            result @ js '' = icmp '' @ op @ js '' i32 '' @ first @ js '', '' @ second,
            cast @ js '' = sext i1 '' @ result @ js '' to i32'',
            js ''call void @stack_push_int(i32 '' @ cast @ js '')'' ] l)"

subsection \<open>Lowering\<close>

text \<open>
  \<open>compile_nodes\<close> is \<open>Compiler.#compile\<close>: fresh generators and an empty instruction
  buffer, the loop over the nodes (\<open>compile_loop\<close>, whose body is the \<open>switch\<close>,
  \<open>compile_node\<close>), and the buffer joined by newlines. \<open>getFunction\<close> is
  \<open>Compiler.#getFunction\<close>: it takes the name from the generator before it compiles the
  body, and records the function after.
\<close>

fun compile_nodes :: "AstNode list \<Rightarrow> Compiler \<Rightarrow> jsstring \<times> Compiler"
  and compile_loop :: "AstNode list \<Rightarrow> Compiler \<times> Locals \<Rightarrow> Compiler \<times> Locals"
  and compile_node :: "AstNode \<Rightarrow> Compiler \<times> Locals \<Rightarrow> Compiler \<times> Locals"
  and getFunction :: "AstNode list \<Rightarrow> Compiler \<Rightarrow> jsstring \<times> Compiler"
where
  "compile_nodes nodes c =
     (case compile_loop nodes (c, new_Locals) of
        (c, l) \<Rightarrow> (join [0x0A] (instructions l), c))"
| "compile_loop [] s = s"
| "compile_loop (node # nodes) s = compile_loop nodes (compile_node node s)"
| "compile_node (Variable v) (c, l) =
     (c, push [js ''call void @stack_push_ref(%union.FalseValue* '' @ varName v @ js '')''] l)"
| "compile_node (String str) (c, l) =
     (case getConstString str c of
        (strName, c) \<Rightarrow>
          (c, push [js ''call i32 @printf(i8* @.fmt, i8* '' @ strName @ js '')''] l))"
| "compile_node (Integer n) (c, l) =
     (c, push [js ''call void @stack_push_int(i32 '' @ Number_toString n @ js '')''] l)"
| "compile_node (Quote body) (c, l) =
     (case getFunction body c of
        (name, c) \<Rightarrow>
          (c, push [js ''call void @stack_push_quote(void()* '' @ name @ js '')''] l))"
| "compile_node GetVar (c, l) =
     (case temporary l of (varRef, l) \<Rightarrow>
      case temporary l of (val, l) \<Rightarrow>
        (c, push
          [ varRef @ js '' = call %union.FalseValue* @stack_pop_ref()'',
            val @ js '' = load %union.FalseValue, %union.FalseValue* '' @ varRef,
            js ''call void @stack_push_any(%union.FalseValue '' @ val @ js '')'' ] l))"
| "compile_node SetVar (c, l) =
     (case temporary l of (varRef, l) \<Rightarrow>
      case temporary l of (val, l) \<Rightarrow>
        (c, push
          [ varRef @ js '' = call %union.FalseValue* @stack_pop_ref()'',
            val @ js '' = call %union.FalseValue @stack_pop_any()'',
            js ''store %union.FalseValue '' @ val @ js '', %union.FalseValue* '' @ varRef ] l))"
| "compile_node Dup (c, l) =
     (case temporary l of (val, l) \<Rightarrow>
        (c, push
          [ val @ js '' = call %union.FalseValue @stack_peek_any(i32 0)'',
            js ''call void @stack_push_any(%union.FalseValue '' @ val @ js '')'' ] l))"
| "compile_node Discard (c, l) =
     (c, push [js ''call %union.FalseValue @stack_pop_any()''] l)"
| "compile_node Swap (c, l) =
     (case temporary l of (first, l) \<Rightarrow>
      case temporary l of (second, l) \<Rightarrow>
        (c, push
          [ first @ js '' = call %union.FalseValue @stack_pop_any()'',
            second @ js '' = call %union.FalseValue @stack_pop_any()'',
            js ''call void @stack_push_any(%union.FalseValue '' @ first @ js '')'',
            js ''call void @stack_push_any(%union.FalseValue '' @ second @ js '')'' ] l))"
| "compile_node Rotate (c, l) =
     (case temporary l of (first, l) \<Rightarrow>
      case temporary l of (second, l) \<Rightarrow>
      case temporary l of (third, l) \<Rightarrow>
        (c, push
          [ first @ js '' = call %union.FalseValue @stack_pop_any()'',
            second @ js '' = call %union.FalseValue @stack_pop_any()'',
            third @ js '' = call %union.FalseValue @stack_pop_any()'',
            js ''call void @stack_push_any(%union.FalseValue '' @ second @ js '')'',
            js ''call void @stack_push_any(%union.FalseValue '' @ first @ js '')'',
            js ''call void @stack_push_any(%union.FalseValue '' @ third @ js '')'' ] l))"
| "compile_node Take (c, l) =
     (case temporary l of (depth, l) \<Rightarrow>
      case temporary l of (val, l) \<Rightarrow>
        (c, push
          [ depth @ js '' = call i32 @stack_pop_int()'',
            val @ js '' = call %union.FalseValue @stack_peek_any(i32 '' @ depth @ js '')'',
            js ''call void @stack_push_any(%union.FalseValue '' @ val @ js '')'' ] l))"
| "compile_node Plus (c, l) = (c, basicOp (js ''add'') l)"
| "compile_node Minus (c, l) = (c, basicOp (js ''sub'') l)"
| "compile_node Mul (c, l) = (c, basicOp (js ''mul'') l)"
| "compile_node Div (c, l) = (c, basicOp (js ''sdiv'') l)"
| "compile_node Negate (c, l) =
     (case temporary l of (val, l) \<Rightarrow>
      case temporary l of (temp, l) \<Rightarrow>
        (c, push
          [ val @ js '' = call i32 @stack_pop_int()'',
            temp @ js '' = sub i32 0, '' @ val,
            js ''call void @stack_push_int(i32 '' @ temp @ js '')'' ] l))"
| "compile_node BitAnd (c, l) = (c, basicOp (js ''and'') l)"
| "compile_node BitOr (c, l) = (c, basicOp (js ''or'') l)"
| "compile_node BitInvert (c, l) =
     (case temporary l of (val, l) \<Rightarrow>
      case temporary l of (temp, l) \<Rightarrow>
        (c, push
          [ val @ js '' = call i32 @stack_pop_int()'',
            temp @ js '' = xor i32 -1, '' @ val,
            js ''call void @stack_push_int(i32 '' @ temp @ js '')'' ] l))"
| "compile_node Equal (c, l) = (c, cmp (js ''eq'') l)"
| "compile_node GreaterThan (c, l) = (c, cmp (js ''sgt'') l)"
| "compile_node Execute (c, l) =
     (case temporary l of (val, l) \<Rightarrow>
        (c, push
          [ val @ js '' = call void()* @stack_pop_quote()'',
            js ''call void '' @ val @ js ''()'' ] l))"
| "compile_node ExecuteIf (c, l) =
     (case label l of (iftrue, l) \<Rightarrow>
      case label l of (iffalse, l) \<Rightarrow>
      case temporary l of (quote, l) \<Rightarrow>
      case temporary l of (val, l) \<Rightarrow>
      case temporary l of (cond, l) \<Rightarrow>
        (c, push
          [ quote @ js '' = call void()* @stack_pop_quote()'',
            val @ js '' = call i32 @stack_pop_int()'',
            cond @ js '' = icmp ne i32 '' @ val @ js '', 0'',
            js ''br i1 '' @ cond @ js '', label %'' @ iftrue @ js '', label %'' @ iffalse,
            iftrue @ js '':'',
            js ''call void '' @ quote @ js ''()'',
            js ''br label %'' @ iffalse,
            iffalse @ js '':'' ] l))"
| "compile_node While (c, l) =
     (case label l of (loop, l) \<Rightarrow>
      case label l of (iftrue, l) \<Rightarrow>
      case label l of (iffalse, l) \<Rightarrow>
      case temporary l of (body, l) \<Rightarrow>
      case temporary l of (cond_quote, l) \<Rightarrow>
      case temporary l of (val, l) \<Rightarrow>
      case temporary l of (cond, l) \<Rightarrow>
        (c, push
          [ body @ js '' = call void()* @stack_pop_quote()'',
            cond_quote @ js '' = call void()* @stack_pop_quote()'',
            js ''br label %'' @ loop,
            loop @ js '':'',
            js ''call void '' @ cond_quote @ js ''()'',
            val @ js '' = call i32 @stack_pop_int()'',
            cond @ js '' = icmp ne i32 '' @ val @ js '', 0'',
            js ''br i1 '' @ cond @ js '', label %'' @ iftrue @ js '', label %'' @ iffalse,
            iftrue @ js '':'',
            js ''call void '' @ body @ js ''()'',
            js ''br label %'' @ loop,
            iffalse @ js '':'' ] l))"
| "compile_node Getc (c, l) =
     (case temporary l of (temp, l) \<Rightarrow>
        (c, push
          [ temp @ js '' = call i32 @getchar()'',
            js ''call void @stack_push_int(i32 '' @ temp @ js '')'' ] l))"
| "compile_node Putc (c, l) =
     (case temporary l of (temp, l) \<Rightarrow>
        (c, push
          [ temp @ js '' = call i32 @stack_pop_int()'',
            js ''call i32 @putchar(i32 '' @ temp @ js '')'' ] l))"
| "compile_node PrintInt (c, l) =
     (case temporary l of (temp, l) \<Rightarrow>
        (c, push
          [ temp @ js '' = call i32 @stack_pop_int()'',
            js ''call i32 @printf(i8* @.num, i32 '' @ temp @ js '')'' ] l))"
| "getFunction nodes c =
     (case find (\<lambda>(val, _, _). astEqual (V_array nodes) (V_array val)) (functions' c) of
        Some (_, name, _) \<Rightarrow> (name, c)
      | None \<Rightarrow>
          (case generator_next (js ''@lambda_'') (lambdaNameGenerator c) of
             (name, ident) \<Rightarrow>
               (case compile_nodes nodes (c\<lparr>lambdaNameGenerator := ident\<rparr>) of
                  (body, c) \<Rightarrow>
                    (let compiled =
                           js ''define void '' @ name @ js ''() {'' @ [0x0A] @ js ''entry:''
                             @ [0x0A] @ body @ [0x0A] @ js ''ret void'' @ [0x0A] @ js ''}''
                     in (name, c\<lparr>functions' := functions' c @ [(nodes, name, compiled)]\<rparr>)))))"

text \<open>
  \<open>Compiler.compile\<close> and the exported \<open>compile\<close>. The prologue \<open>head\<close> is a fixed text
  of the source that does not depend on the program; it is a parameter here.
\<close>

definition string_constant :: "jsstring \<times> jsstring \<Rightarrow> jsstring" where
  "string_constant entry =
     (case entry of (str, name) \<Rightarrow>
      case encode_string str of (len, enc) \<Rightarrow>
        name @ js '' = private unnamed_addr constant ['' @ show_nat len @ js '' x i8] c''
          @ [0x22] @ enc @ [0x22])"

definition Compiler_compile :: "jsstring \<Rightarrow> AstNode list \<Rightarrow> Compiler \<Rightarrow> jsstring \<times> Compiler" where
  "Compiler_compile head ast c =
     (case compile_nodes ast c of
        (topLevel, c) \<Rightarrow>
          (head @ join [0x0A]
             (map string_constant (strings c)
              @ map (\<lambda>x. snd (snd x)) (functions' c)
              @ [ js ''define i32 @main() {'',
                  js ''call void @stack_init()'',
                  topLevel,
                  js ''call void @stack_free()'',
                  js ''ret i32 0'',
                  js ''}'' ]), c))"

definition compile :: "jsstring \<Rightarrow> AstNode list \<Rightarrow> jsstring" where
  "compile head source = fst (Compiler_compile head source new_Compiler)"

section \<open>The command line\<close>

text \<open>
  \<open>main\<close> derives the output file with
  \<open>process.argv[3] ?? filename.replace(/\..+$/, '.ll')\<close>. The pattern matches at the
  leftmost dot that is followed, up to the end of the string, by at least one character and
  by no line terminator (the class that \<open>.\<close> leaves out); the match is replaced by
  \<open>.ll\<close>, and a string without a match is returned as it is.
\<close>

definition isLineTerminator :: "cu \<Rightarrow> bool" where
  "isLineTerminator c \<longleftrightarrow> c = 0x0A \<or> c = 0x0D \<or> c = 0x2028 \<or> c = 0x2029"

fun replace_extension :: "jsstring \<Rightarrow> jsstring" where
  "replace_extension [] = []"
| "replace_extension (c # cs) =
     (if c = ch CHR ''.'' \<and> cs \<noteq> [] \<and> list_all (\<lambda>x. \<not> isLineTerminator x) cs then js ''.ll''
      else c # replace_extension cs)"

definition outFile :: "jsstring option \<Rightarrow> jsstring \<Rightarrow> jsstring" where
  "outFile argv3 filename =
     (case argv3 of Some out \<Rightarrow> out | None \<Rightarrow> replace_extension filename)"

section \<open>Notions of the statements\<close>

subsection \<open>Integer nodes\<close>




subsection \<open>The end of the input\<close>

text \<open>
  Once the tokenizer has reported the end of the input, \<open>#currentToken\<close> is \<open>null\<close>
  and nothing is left to read.
\<close>

definition at_end :: "Parser \<Rightarrow> bool" where
  "at_end p \<longleftrightarrow> (currentToken p = None \<longrightarrow> tokenizer p = [])"

subsection \<open>Token streams and brackets\<close>

text \<open>
  The token stream of a source: what iterating the tokenizer to its end yields.
  \<open>balanced d\<close> says of a stream read at bracket depth \<open>d\<close> that no close bracket
  comes at depth 0 and that the stream ends at depth 0.
\<close>

function lex_all :: "jsstring \<Rightarrow> error + Token list" where
  "lex_all src =
     (case tokenizer_next src of
        Inl e \<Rightarrow> Inl e
      | Inr (None, rest) \<Rightarrow> Inr []
      | Inr (Some t, rest) \<Rightarrow>
          (case lex_all rest of Inl e \<Rightarrow> Inl e | Inr ts \<Rightarrow> Inr (t # ts)))"
  by pat_completeness auto
termination
  by (relation "measure length") (auto dest: tokenizer_next_Some_length)

declare lex_all.simps [simp del]

fun balanced :: "nat \<Rightarrow> Token list \<Rightarrow> bool" where
  "balanced d [] = (d = 0)"
| "balanced d (t # ts) =
     (case branch_of t of
        Open \<Rightarrow> balanced (Suc d) ts
      | Close \<Rightarrow> 0 < d \<and> balanced (d - 1) ts
      | _ \<Rightarrow> balanced d ts)"

text \<open>A close bracket and what follows it.\<close>

definition closing :: "jsstring \<Rightarrow> jsstring" where
  "closing s = ch CHR '']'' # s"

text \<open>
  \<open>stream p\<close> is the token stream from the parser's current token on. \<open>with_closing s p\<close> is
  the state that corresponds to \<open>p\<close> when the source is followed by a close bracket and
  \<open>s\<close>: the unread part grows, and where \<open>p\<close> is at the end of the input the current
  token is that close bracket, with \<open>s\<close> unread.
\<close>

definition stream :: "Parser \<Rightarrow> error + Token list" where
  "stream p =
     (case currentToken p of
        None \<Rightarrow> Inr []
      | Some t \<Rightarrow> (case lex_all (tokenizer p) of Inl e \<Rightarrow> Inl e | Inr ts \<Rightarrow> Inr (t # ts)))"

definition with_closing :: "jsstring \<Rightarrow> Parser \<Rightarrow> Parser" where
  "with_closing s p =
     (case currentToken p of
        None \<Rightarrow> \<lparr>tokenizer = s, currentToken = Some Tok_CloseBracket\<rparr>
      | Some t \<Rightarrow> \<lparr>tokenizer = tokenizer p @ closing s, currentToken = Some t\<rparr>)"

subsection \<open>Decimal digits\<close>

text \<open>The number that a list of decimal digits stands for.\<close>

definition decimal :: "nat list \<Rightarrow> nat" where
  "decimal ds = foldl (\<lambda>a d. 10 * a + d) 0 ds"

subsection \<open>The emitted instructions\<close>

text \<open>
  The lines that \<open>basicOp\<close> and \<open>cmp\<close> emit are LLVM instructions. \<open>ir_instr\<close> is
  their abstract syntax and \<open>render\<close> their text; \<open>exec\<close> is what they do. A value of
  type \<open>i32\<close> is a 32-bit word and one of type \<open>i1\<close> a truth value; the temporaries
  are registers. \<open>@stack_pop_int\<close> and \<open>@stack_push_int\<close> are the helpers of the
  prologue (\<open>definePop\<close>, \<open>definePush\<close>): the first takes the top cell off the runtime
  stack and returns its \<open>i32\<close>, the second puts an \<open>i32\<close> on top; here the stack is a list
  with its top first, and a pop from the empty stack has no defined result. \<open>add\<close>,
  \<open>sub\<close> and \<open>mul\<close> wrap around; \<open>sdiv\<close> is the signed quotient rounded towards zero,
  undefined for a zero divisor and for the overflow of \<open>- 2 ^ 31\<close> by \<open>- 1\<close>;
  \<open>icmp eq\<close> and \<open>icmp sgt\<close> compare for equality and for signed greater-than;
  \<open>sext\<close> of an \<open>i1\<close> to \<open>i32\<close> gives 0 or -1.
\<close>

datatype ir_value = I32 "32 word" | I1 bool

datatype ir_instr =
    Pop_int jsstring
  | Push_int jsstring
  | Binop jsstring jsstring jsstring jsstring
  | Icmp jsstring jsstring jsstring jsstring
  | Sext jsstring jsstring

fun render :: "ir_instr \<Rightarrow> jsstring" where
  "render (Pop_int t) = t @ js '' = call i32 @stack_pop_int()''"
| "render (Push_int t) = js ''call void @stack_push_int(i32 '' @ t @ js '')''"
| "render (Binop r op x y) = r @ js '' = '' @ op @ js '' i32 '' @ x @ js '', '' @ y"
| "render (Icmp r op x y) = r @ js '' = icmp '' @ op @ js '' i32 '' @ x @ js '', '' @ y"
| "render (Sext c r) = c @ js '' = sext i1 '' @ r @ js '' to i32''"

record machine =
  regs :: "jsstring \<Rightarrow> ir_value option"
  stack :: "32 word list"

definition sdiv32 :: "32 word \<Rightarrow> 32 word \<Rightarrow> 32 word option" where
  "sdiv32 a b =
     (if b = 0 \<or> (a = - (2 ^ 31) \<and> b = - 1) then None
      else Some (word_of_int (sint a sdiv sint b)))"

definition binop :: "jsstring \<Rightarrow> 32 word \<Rightarrow> 32 word \<Rightarrow> 32 word option" where
  "binop op a b =
     (if op = js ''add'' then Some (a + b)
      else if op = js ''sub'' then Some (a - b)
      else if op = js ''mul'' then Some (a * b)
      else if op = js ''sdiv'' then sdiv32 a b
      else if op = js ''and'' then Some (a AND b)
      else if op = js ''or'' then Some (a OR b)
      else None)"

definition icmp :: "jsstring \<Rightarrow> 32 word \<Rightarrow> 32 word \<Rightarrow> bool option" where
  "icmp op a b =
     (if op = js ''eq'' then Some (a = b)
      else if op = js ''sgt'' then Some (sint b < sint a)
      else None)"

fun exec :: "ir_instr \<Rightarrow> machine \<Rightarrow> machine option" where
  "exec (Pop_int t) m =
     (case stack m of
        [] \<Rightarrow> None
      | v # st \<Rightarrow> Some (m\<lparr>regs := (regs m)(t \<mapsto> I32 v), stack := st\<rparr>))"
| "exec (Push_int t) m =
     (case regs m t of
        Some (I32 v) \<Rightarrow> Some (m\<lparr>stack := v # stack m\<rparr>)
      | _ \<Rightarrow> None)"
| "exec (Binop r op x y) m =
     (case (regs m x, regs m y) of
        (Some (I32 a), Some (I32 b)) \<Rightarrow>
          (case binop op a b of
             Some v \<Rightarrow> Some (m\<lparr>regs := (regs m)(r \<mapsto> I32 v)\<rparr>)
           | None \<Rightarrow> None)
      | _ \<Rightarrow> None)"
| "exec (Icmp r op x y) m =
     (case (regs m x, regs m y) of
        (Some (I32 a), Some (I32 b)) \<Rightarrow>
          (case icmp op a b of
             Some v \<Rightarrow> Some (m\<lparr>regs := (regs m)(r \<mapsto> I1 v)\<rparr>)
           | None \<Rightarrow> None)
      | _ \<Rightarrow> None)"
| "exec (Sext c r) m =
     (case regs m r of
        Some (I1 v) \<Rightarrow> Some (m\<lparr>regs := (regs m)(c \<mapsto> I32 (if v then - 1 else 0))\<rparr>)
      | _ \<Rightarrow> None)"

fun exec_all :: "ir_instr list \<Rightarrow> machine \<Rightarrow> machine option" where
  "exec_all [] m = Some m"
| "exec_all (i # is) m = (case exec i m of None \<Rightarrow> None | Some m' \<Rightarrow> exec_all is m')"

text \<open>The temporaries by number, and the instructions of \<open>basicOp\<close> and \<open>cmp\<close> as syntax.\<close>

definition tmp :: "nat \<Rightarrow> jsstring" where
  "tmp n = js ''%t'' @ show_nat n"

definition basicOp_ir :: "jsstring \<Rightarrow> nat \<Rightarrow> ir_instr list" where
  "basicOp_ir op n =
     [Pop_int (tmp n), Pop_int (tmp (n + 1)), Binop (tmp (n + 2)) op (tmp (n + 1)) (tmp n),
      Push_int (tmp (n + 2))]"

definition cmp_ir :: "jsstring \<Rightarrow> nat \<Rightarrow> ir_instr list" where
  "cmp_ir op n =
     [Pop_int (tmp n), Pop_int (tmp (n + 1)), Icmp (tmp (n + 2)) op (tmp (n + 1)) (tmp n),
      Sext (tmp (n + 3)) (tmp (n + 2)), Push_int (tmp (n + 3))]"

subsection \<open>The string table\<close>

text \<open>
  The names of the string generator, and the invariant of the string table \<open>#strings\<close>:
  its keys are distinct and its names are, in the order of insertion, the names of the ids
  from 1 up to the generator's next id. \<open>table_grows c c'\<close> says that \<open>c'\<close> keeps the
  invariant of \<open>c\<close> and that its table is the table of \<open>c\<close> with entries added at the
  end.
\<close>

definition strName :: "nat \<Rightarrow> jsstring" where
  "strName k = js ''@str_'' @ show_nat k"

definition strings_inv :: "Compiler \<Rightarrow> bool" where
  "strings_inv c \<longleftrightarrow>
     1 \<le> stringNameGenerator c
     \<and> distinct (map fst (strings c))
     \<and> map snd (strings c) = map strName [1..<stringNameGenerator c]"

definition table_grows :: "Compiler \<Rightarrow> Compiler \<Rightarrow> bool" where
  "table_grows c c' \<longleftrightarrow>
     (strings_inv c \<longrightarrow> strings_inv c' \<and> (\<exists>ext. strings c' = strings c @ ext))"

section \<open>Deduplication of quotations\<close>

text \<open>
  C1. Two quotations are to share a hoisted function exactly when their bodies are equal.
  The program \<open>[1 2][1 3]\<close> has two quotations whose bodies differ in the second child.
  \<open>astEqual\<close> looks at the first child only, so the second quotation is given the
  function of the first: both are lowered to \<open>@lambda_1\<close>, and only the body
  \<open>1 2\<close> is ever compiled.
\<close>

theorem dedup_ignores_second_child:
  "parse (js ''[1 2][1 3]'') = Inr [Quote [Integer (Finite 1), Integer (Finite 2)], Quote [Integer (Finite 1), Integer (Finite 3)]]
   \<and> astEqual (V_array [Integer (Finite 1), Integer (Finite 3)]) (V_array [Integer (Finite 1), Integer (Finite 2)])
   \<and> fst (compile_nodes [Quote [Integer (Finite 1), Integer (Finite 2)], Quote [Integer (Finite 1), Integer (Finite 3)]] new_Compiler)
       = join [0x0A]
           [ js ''call void @stack_push_quote(void()* @lambda_1)'',
             js ''call void @stack_push_quote(void()* @lambda_1)'' ]
   \<and> map fst (functions'
         (snd (compile_nodes [Quote [Integer (Finite 1), Integer (Finite 2)], Quote [Integer (Finite 1), Integer (Finite 3)]]
                 new_Compiler)))
       = [[Integer (Finite 1), Integer (Finite 2)]]"
  by code_simp

section \<open>The derived output file\<close>

text \<open>
  C9. With no output argument the output file is to be the input file with its extension
  replaced by \<open>.ll\<close>, also for a name without a dot. For the name \<open>prog\<close> the pattern
  has no match and the derived output file is \<open>prog\<close> itself: it does not end in
  \<open>.ll\<close> and it is the input file. Names with one dot or with several lose everything
  from the first dot on, as stated.
\<close>

theorem outFile_without_dot:
  "outFile None (js ''prog'') = js ''prog''
   \<and> outFile None (js ''prog.f'') = js ''prog.ll''
   \<and> outFile None (js ''a.b.c'') = js ''a.ll''"
  by code_simp

section \<open>What the tokenizer skips\<close>

lemma tokenizer_next_whitespace:
  "isWhitespace c \<Longrightarrow> tokenizer_next (c # rest) = tokenizer_next rest"
  by (simp add: tokenizer_next.simps)

lemma map_of_symbols_None: "c \<notin> fst ` set symbols \<Longrightarrow> map_of symbols c = None"
  by (simp add: map_of_eq_None_iff)

lemma tokenizer_next_invalid:
  "\<not> isWhitespace c \<Longrightarrow> c \<noteq> ch CHR ''{'' \<Longrightarrow> c \<noteq> 0x27 \<Longrightarrow> c \<noteq> 0x22 \<Longrightarrow> \<not> isDigit c \<Longrightarrow>
   \<not> isLower c \<Longrightarrow> c \<notin> fst ` set symbols \<Longrightarrow> tokenizer_next (c # rest) = Inl (InvalidCharacter c)"
  by (simp add: tokenizer_next.simps map_of_symbols_None)

lemma tokenizer_next_not_skipped:
  assumes "\<not> isWhitespace c" and "c \<noteq> ch CHR ''{''"
  shows "(\<exists>e. tokenizer_next (c # rest) = Inl e) \<or> (\<exists>t r. tokenizer_next (c # rest) = Inr (Some t, r))"
  using assms
  by (auto simp: tokenizer_next.simps split: sum.splits prod.splits option.splits)

text \<open>
  C5, as stated, fails: the no-break space U+00A0 is none of the six ASCII whitespace
  characters, starts no comment, string, character literal, digit run or variable and is
  no symbol, and yet the tokenizer passes over it without an error and reads the number
  behind it.
\<close>

theorem nbsp_is_skipped:
  "tokenizer_next (0xA0 # js ''1'') = Inr (Some (Tok_Integer (Finite 1)), [])
   \<and> (0xA0 :: cu) \<notin> {0x20, 0x09, 0x0A, 0x0D, 0x0C, 0x0B}
   \<and> (0xA0 :: cu) \<notin> {ch CHR ''{'', 0x27, 0x22}
   \<and> \<not> isDigit 0xA0 \<and> \<not> isLower 0xA0 \<and> 0xA0 \<notin> fst ` set symbols"
  by code_simp

text \<open>
  C5, amended. The characters that the tokenizer skips silently are exactly those of the
  class \<open>\s\<close> of the host's regular expressions: the six ASCII whitespace characters and
  U+00A0, U+1680, U+2000 to U+200A, U+2028, U+2029, U+202F, U+205F, U+3000, U+FEFF. A
  character of that class is passed over. Every character outside it that does not start a
  comment, a string, a character literal, a digit run or a variable and is not in the
  symbol table fails with "Invalid character: X". No character outside the class, other
  than the \<open>{\<close> of a comment, is passed over: it yields a token or an error.
\<close>

theorem lexer_skips_whitespace_class:
  "(isWhitespace c \<longleftrightarrow>
      c \<in> {0x09, 0x0A, 0x0B, 0x0C, 0x0D, 0x20, 0xA0, 0x1680, 0x2028, 0x2029, 0x202F, 0x205F,
            0x3000, 0xFEFF} \<union> {0x2000 .. 0x200A})
   \<and> (isWhitespace c \<longrightarrow> tokenizer_next (c # rest) = tokenizer_next rest)
   \<and> (\<not> isWhitespace c \<and> c \<noteq> ch CHR ''{'' \<and> c \<noteq> 0x27 \<and> c \<noteq> 0x22 \<and> \<not> isDigit c \<and> \<not> isLower c
        \<and> c \<notin> fst ` set symbols
      \<longrightarrow> tokenizer_next (c # rest) = Inl (InvalidCharacter c)
          \<and> message (InvalidCharacter c) = js ''Invalid character: '' @ [c])
   \<and> (\<not> isWhitespace c \<and> c \<noteq> ch CHR ''{''
      \<longrightarrow> (\<exists>e. tokenizer_next (c # rest) = Inl e)
          \<or> (\<exists>t r. tokenizer_next (c # rest) = Inr (Some t, r)))
   \<and> length symbols = 27 \<and> distinct (map fst symbols)"
proof (intro conjI impI)
  show "length symbols = 27" and "distinct (map fst symbols)"
    by (simp_all add: symbols_def ch_def)
next
  show "isWhitespace c \<longleftrightarrow>
      c \<in> {0x09, 0x0A, 0x0B, 0x0C, 0x0D, 0x20, 0xA0, 0x1680, 0x2028, 0x2029, 0x202F, 0x205F,
            0x3000, 0xFEFF} \<union> {0x2000 .. 0x200A}"
    by (auto simp: isWhitespace_def)
next
  assume "isWhitespace c"
  then show "tokenizer_next (c # rest) = tokenizer_next rest"
    by (rule tokenizer_next_whitespace)
next
  assume "\<not> isWhitespace c \<and> c \<noteq> ch CHR ''{'' \<and> c \<noteq> 0x27 \<and> c \<noteq> 0x22 \<and> \<not> isDigit c \<and> \<not> isLower c
        \<and> c \<notin> fst ` set symbols"
  then show "tokenizer_next (c # rest) = Inl (InvalidCharacter c)"
    by (simp add: tokenizer_next_invalid)
next
  show "message (InvalidCharacter c) = js ''Invalid character: '' @ [c]"
    by (simp add: message_def)
next
  assume "\<not> isWhitespace c \<and> c \<noteq> ch CHR ''{''"
  then show "(\<exists>e. tokenizer_next (c # rest) = Inl e)
          \<or> (\<exists>t r. tokenizer_next (c # rest) = Inr (Some t, r))"
    by (simp add: tokenizer_next_not_skipped)
qed

theorem lexer_skips_whitespace_class_witness:
  "tokenizer_next (0x3000 # js ''a'') = tokenizer_next (js ''a'')
   \<and> tokenizer_next (js ''E1'') = Inl (InvalidCharacter (ch CHR ''E''))
   \<and> message (InvalidCharacter (ch CHR ''E'')) = js ''Invalid character: E''
   \<and> ((\<exists>e. tokenizer_next (js ''+1'') = Inl e)
        \<or> (\<exists>t r. tokenizer_next (js ''+1'') = Inr (Some t, r)))
   \<and> tokenizer_next (js ''+1'') = Inr (Some Tok_Plus, js ''1'')"
proof -
  have ws: "isWhitespace 0x3000"
    by (simp add: isWhitespace_def)
  have inv: "\<not> isWhitespace (ch CHR ''E'') \<and> ch CHR ''E'' \<noteq> ch CHR ''{'' \<and> ch CHR ''E'' \<noteq> 0x27
      \<and> ch CHR ''E'' \<noteq> 0x22 \<and> \<not> isDigit (ch CHR ''E'') \<and> \<not> isLower (ch CHR ''E'')
      \<and> ch CHR ''E'' \<notin> fst ` set symbols"
    by (simp add: isWhitespace_def isDigit_def isLower_def symbols_def ch_def)
  have plus: "\<not> isWhitespace (ch CHR ''+'') \<and> ch CHR ''+'' \<noteq> ch CHR ''{''"
    by (simp add: isWhitespace_def ch_def)
  have tok: "tokenizer_next (js ''+1'') = Inr (Some Tok_Plus, js ''1'')"
    by code_simp
  from ws lexer_skips_whitespace_class [of "0x3000" "js ''a''"]
  have "tokenizer_next (0x3000 # js ''a'') = tokenizer_next (js ''a'')"
    by blast
  moreover from inv lexer_skips_whitespace_class [of "ch CHR ''E''" "js ''1''"]
  have "tokenizer_next (ch CHR ''E'' # js ''1'') = Inl (InvalidCharacter (ch CHR ''E''))
      \<and> message (InvalidCharacter (ch CHR ''E'')) = js ''Invalid character: '' @ [ch CHR ''E'']"
    by blast
  moreover from plus lexer_skips_whitespace_class [of "ch CHR ''+''" "js ''1''"]
  have "(\<exists>e. tokenizer_next (ch CHR ''+'' # js ''1'') = Inl e)
        \<or> (\<exists>t r. tokenizer_next (ch CHR ''+'' # js ''1'') = Inr (Some t, r))"
    by blast
  ultimately show ?thesis
    using tok by (simp add: js_def)
qed

section \<open>The values of integer nodes\<close>




















text \<open>
  What long runs of digits become: the value of a run of 16 digits is rounded, and the
  text of a number from \<open>10 ^ 21\<close> on, as the generated code has it after
  \<open>stack_push_int\<close>, is in exponent notation.
\<close>

lemma long_digit_runs:
  "parseInt (js ''9999999999999999'') = Finite 10000000000000000"
  "Number_toString (parseInt (js ''18446744073709551616'')) = js ''18446744073709552000''"
  "Number_toString (parseInt (js ''1000000000000000000000'')) = js ''1e+21''"
  "Number_toString (parseInt (js ''123456789012345678901234567890''))
     = js ''1.2345678901234568e+29''"
  by code_simp+




section \<open>End of input inside a quotation\<close>

lemma tokenizer_next_None_empty: "tokenizer_next src = Inr (None, rest) \<Longrightarrow> rest = []"
proof (induction src rule: tokenizer_next.induct)
  case 1
  then show ?case by (simp add: tokenizer_next.simps)
next
  case (2 c cs)
  then show ?case
    by (auto simp: tokenizer_next.simps split: if_splits sum.splits prod.splits option.splits)
qed

lemma parser_next_at_end: "parser_next p = Inr p1 \<Longrightarrow> at_end p1"
  by (auto simp: parser_next_def at_end_def split: sum.splits prod.splits
      dest: tokenizer_next_None_empty)

lemma parseStatements_loop_at_end:
  "parseStatements_loop statements p = Inr (res, p') \<Longrightarrow> at_end p \<Longrightarrow> at_end p'"
proof (induction statements p arbitrary: res p' rule: parseStatements_loop.induct)
  case (1 statements p)
  from "1.prems"(1) show ?case
  proof (cases rule: parseStatements_loop_returns)
    case Done
    with "1.prems" show ?thesis by simp
  next
    case (Instr tok node p1)
    from "1.IH"(1) [OF Instr(1,2,3,4) parser_next_at_end [OF Instr(3)]] show ?thesis .
  next
    case (Open tok p1 body p2 p3)
    from "1.IH"(3) [OF Open(1,2,3,4) refl Open(5,6) parser_next_at_end [OF Open(5)]]
    show ?thesis .
  next
    case (Close tok)
    with "1.prems" show ?thesis by simp
  next
    case (NoOp tok p1)
    from "1.IH"(4) [OF NoOp(1,2,3,4) parser_next_at_end [OF NoOp(3)]] show ?thesis .
  qed
qed

lemma parser_next_at_end_fix:
  assumes "at_end p" and "currentToken p = None"
  shows "parser_next p = Inr p"
proof -
  from assms have "tokenizer p = []" by (simp add: at_end_def)
  with assms(2) show ?thesis
    by (simp add: parser_next_def tokenizer_next.simps)
qed

lemma open_bracket_at_end:
  assumes "currentToken p = Some Tok_OpenBracket" and "parser_next p = Inr p1"
    and "parseStatements p1 = Inr (body, p2)" and "currentToken p2 = None"
  shows "parseStatements_loop statements p = Inr (statements @ [Quote body], p2)"
proof -
  from assms(3) have b: "parseStatements_loop [] p1 = Inr (body, p2)"
    by (simp add: parseStatements_def)
  from parseStatements_loop_at_end [OF b parser_next_at_end [OF assms(2)]]
  have "at_end p2" .
  then have n: "parser_next p2 = Inr p2"
    using assms(4) by (rule parser_next_at_end_fix)
  have "parseStatements_loop (statements @ [Quote body]) p2 = Inr (statements @ [Quote body], p2)"
    using assms(4) by (rule parseStatements_loop_None)
  with assms(1,2) b n show ?thesis
    by (simp add: parseStatements_loop_Open)
qed

lemma tokenizer_next_open: "tokenizer_next (ch CHR ''['' # source) = Inr (Some Tok_OpenBracket, source)"
  by (simp add: tokenizer_next.simps isWhitespace_def isDigit_def isLower_def ch_def symbols_def)

lemma parse_open_bracket_at_end:
  assumes "parse_run source = Inr (body, q)" and "currentToken q = None"
  shows "parse (ch CHR ''['' # source) = Inr [Quote body]"
proof -
  let ?p = "\<lparr>tokenizer = source, currentToken = Some Tok_OpenBracket\<rparr>"
  from assms(1) obtain p1 where
    n: "parser_next \<lparr>tokenizer = source, currentToken = None\<rparr> = Inr p1"
    and b: "parseStatements p1 = Inr (body, q)"
    by (auto simp: parse_run_def split: sum.splits)
  from n have n': "parser_next ?p = Inr p1"
    by (simp add: parser_next_def)
  have "parseStatements_loop [] ?p = Inr ([] @ [Quote body], q)"
    by (rule open_bracket_at_end [OF _ n' b assms(2)]) simp
  then show ?thesis
    by (simp add: parse_def parse_run_def parser_next_def tokenizer_next_open parseStatements_def)
qed

text \<open>
  C2, as stated, fails: in \<open>[1\<close> the bracket is opened and the input ends before it is
  closed; parsing returns an AST, the quotation of \<open>1\<close>, and no error.
\<close>

theorem unclosed_bracket_parses:
  "tokenizer_next (js ''[1'') = Inr (Some Tok_OpenBracket, js ''1'')
   \<and> tokenizer_next (js ''1'') = Inr (Some (Tok_Integer (Finite 1)), [])
   \<and> tokenizer_next [] = Inr (None, [])
   \<and> parse (js ''[1'') = Inr [Quote [Integer (Finite 1)]]"
  by code_simp

text \<open>
  C2, amended. The parser has no error for the end of the input: the loop of
  \<open>parseStatements\<close> ends on \<open>null\<close> at every depth. When the parser is at an open
  bracket and the statements behind it are parsed up to the end of the input, the loop
  returns with the quotation of those statements as its last node, as if the bracket had
  been closed there. In particular, when a source parses up to its end, the source with an
  open bracket before it parses to the one quotation of its statements.
\<close>

theorem unclosed_bracket_closed_at_end:
  "(currentToken p = Some Tok_OpenBracket \<and> parser_next p = Inr p1
      \<and> parseStatements p1 = Inr (body, p2) \<and> currentToken p2 = None
     \<longrightarrow> parseStatements_loop statements p = Inr (statements @ [Quote body], p2))
   \<and> (parse_run source = Inr (body', q) \<and> currentToken q = None
     \<longrightarrow> parse (ch CHR ''['' # source) = Inr [Quote body'])"
  using open_bracket_at_end [of p p1 body p2 statements]
    parse_open_bracket_at_end [of source body' q]
  by blast

theorem unclosed_bracket_closed_at_end_witness:
  "parser_next \<lparr>tokenizer = js ''2 3'', currentToken = Some Tok_OpenBracket\<rparr>
     = Inr \<lparr>tokenizer = js '' 3'', currentToken = Some (Tok_Integer (Finite 2))\<rparr>
   \<and> parseStatements \<lparr>tokenizer = js '' 3'', currentToken = Some (Tok_Integer (Finite 2))\<rparr>
     = Inr ([Integer (Finite 2), Integer (Finite 3)], \<lparr>tokenizer = [], currentToken = None\<rparr>)
   \<and> parseStatements_loop [Integer (Finite 1)]
       \<lparr>tokenizer = js ''2 3'', currentToken = Some Tok_OpenBracket\<rparr>
     = Inr ([Integer (Finite 1), Quote [Integer (Finite 2), Integer (Finite 3)]], \<lparr>tokenizer = [], currentToken = None\<rparr>)
   \<and> parse_run (js ''2 3'') = Inr ([Integer (Finite 2), Integer (Finite 3)], \<lparr>tokenizer = [], currentToken = None\<rparr>)
   \<and> parse (js ''[2 3'') = Inr [Quote [Integer (Finite 2), Integer (Finite 3)]]"
proof -
  let ?p = "\<lparr>tokenizer = js ''2 3'', currentToken = Some Tok_OpenBracket\<rparr>"
  let ?p1 = "\<lparr>tokenizer = js '' 3'', currentToken = Some (Tok_Integer (Finite 2))\<rparr>"
  let ?p2 = "\<lparr>tokenizer = [], currentToken = None\<rparr> :: Parser"
  have n: "parser_next ?p = Inr ?p1"
    by code_simp
  have b: "parseStatements ?p1 = Inr ([Integer (Finite 2), Integer (Finite 3)], ?p2)"
    by code_simp
  have r: "parse_run (js ''2 3'') = Inr ([Integer (Finite 2), Integer (Finite 3)], ?p2)"
    by code_simp
  have j: "ch CHR ''['' # js ''2 3'' = js ''[2 3''"
    by (simp add: js_def)
  from n b r j
    unclosed_bracket_closed_at_end [of ?p ?p1 "[Integer (Finite 2), Integer (Finite 3)]" ?p2 "[Integer (Finite 1)]"
      "js ''2 3''" "[Integer (Finite 2), Integer (Finite 3)]" ?p2]
  show ?thesis by simp
qed

section \<open>The assembly form\<close>

text \<open>
  C3, as stated, fails: in the source of a backquote, \<open>1\<close> and \<open>{\<close> the \<open>Asm\<close> token
  is followed by an \<open>Integer\<close> token, and parsing fails with "Unclosed comment": before
  it reports the assembly form, the parser pulls the token behind the integer, and that
  pull fails in the tokenizer.
\<close>

theorem asm_integer_then_lex_error:
  "tokenizer_next (ch (CHR 0x60) # js ''1{'') = Inr (Some Tok_Asm, js ''1{'')
   \<and> tokenizer_next (js ''1{'') = Inr (Some (Tok_Integer (Finite 1)), js ''{'')
   \<and> parse (ch (CHR 0x60) # js ''1{'') = Inl UnclosedComment
   \<and> message UnclosedComment = js ''Unclosed comment''
   \<and> message UnclosedComment \<noteq> js ''Assembly is not supported''"
  by code_simp

text \<open>
  C3, amended. Let the parser be at an \<open>Asm\<close> token. When the next pull yields an
  \<open>Integer\<close> token, the parser pulls once more; parsing then fails with "Assembly is not
  supported" if that pull succeeds, and with the tokenizer's error if it fails. When the
  next pull yields a token that is not an \<open>Integer\<close>, parsing fails with "Syntax error:
  Expected a short". When the pull behind \<open>Asm\<close> fails in the tokenizer, parsing fails
  with that error. (Nothing is said here of \<open>Asm\<close> as the last token of the input.)
\<close>

theorem asm_errors:
  assumes "currentToken p = Some Tok_Asm"
  shows "(parser_next p = Inr p1 \<and> currentToken p1 = Some (Tok_Integer n) \<and> parser_next p1 = Inr p2
          \<longrightarrow> parseStatements_loop statements p = Inl AssemblyNotSupported)
       \<and> (parser_next p = Inr p1 \<and> currentToken p1 = Some (Tok_Integer n) \<and> parser_next p1 = Inl e
          \<longrightarrow> parseStatements_loop statements p = Inl e)
       \<and> (parser_next p = Inr p1 \<and> currentToken p1 = Some t \<and> \<not> isInteger t
          \<longrightarrow> parseStatements_loop statements p = Inl ExpectedShort)
       \<and> (parser_next p = Inl e \<longrightarrow> parseStatements_loop statements p = Inl e)
       \<and> message AssemblyNotSupported = js ''Assembly is not supported''
       \<and> message ExpectedShort = js ''Syntax error: Expected a short''"
proof -
  from assms have "parseStatements_loop statements p = Inl (parseAsm p)"
    by (simp add: parseStatements_loop_Assembly)
  then show ?thesis
    by (auto simp: parseAsm_def isInteger_def message_def)
qed

theorem asm_errors_witness:
  "parser_next \<lparr>tokenizer = js ''7 +'', currentToken = Some Tok_Asm\<rparr>
     = Inr \<lparr>tokenizer = js '' +'', currentToken = Some (Tok_Integer (Finite 7))\<rparr>
   \<and> parser_next \<lparr>tokenizer = js '' +'', currentToken = Some (Tok_Integer (Finite 7))\<rparr>
     = Inr \<lparr>tokenizer = [], currentToken = Some Tok_Plus\<rparr>
   \<and> parseStatements_loop [] \<lparr>tokenizer = js ''7 +'', currentToken = Some Tok_Asm\<rparr>
     = Inl AssemblyNotSupported
   \<and> parser_next \<lparr>tokenizer = js ''a'', currentToken = Some Tok_Asm\<rparr>
     = Inr \<lparr>tokenizer = [], currentToken = Some (Tok_Variable (js ''a''))\<rparr>
   \<and> parseStatements_loop [] \<lparr>tokenizer = js ''a'', currentToken = Some Tok_Asm\<rparr>
     = Inl ExpectedShort
   \<and> parser_next \<lparr>tokenizer = js ''7{'', currentToken = Some Tok_Asm\<rparr>
     = Inr \<lparr>tokenizer = js ''{'', currentToken = Some (Tok_Integer (Finite 7))\<rparr>
   \<and> parser_next \<lparr>tokenizer = js ''{'', currentToken = Some (Tok_Integer (Finite 7))\<rparr>
     = Inl UnclosedComment
   \<and> parseStatements_loop [] \<lparr>tokenizer = js ''7{'', currentToken = Some Tok_Asm\<rparr>
     = Inl UnclosedComment
   \<and> parser_next \<lparr>tokenizer = js ''{'', currentToken = Some Tok_Asm\<rparr> = Inl UnclosedComment
   \<and> parseStatements_loop [] \<lparr>tokenizer = js ''{'', currentToken = Some Tok_Asm\<rparr>
     = Inl UnclosedComment"
proof -
  let ?p = "\<lparr>tokenizer = js ''7 +'', currentToken = Some Tok_Asm\<rparr>"
  let ?p1 = "\<lparr>tokenizer = js '' +'', currentToken = Some (Tok_Integer (Finite 7))\<rparr>"
  let ?p2 = "\<lparr>tokenizer = [], currentToken = Some Tok_Plus\<rparr>"
  let ?q = "\<lparr>tokenizer = js ''a'', currentToken = Some Tok_Asm\<rparr>"
  let ?q1 = "\<lparr>tokenizer = [], currentToken = Some (Tok_Variable (js ''a''))\<rparr>"
  let ?r = "\<lparr>tokenizer = js ''7{'', currentToken = Some Tok_Asm\<rparr>"
  let ?r1 = "\<lparr>tokenizer = js ''{'', currentToken = Some (Tok_Integer (Finite 7))\<rparr>"
  let ?u = "\<lparr>tokenizer = js ''{'', currentToken = Some Tok_Asm\<rparr>"
  have a: "parser_next ?p = Inr ?p1"
    by code_simp
  have b: "parser_next ?p1 = Inr ?p2"
    by code_simp
  have c: "parser_next ?q = Inr ?q1"
    by code_simp
  have d: "\<not> isInteger (Tok_Variable (js ''a''))"
    by (simp add: isInteger_def)
  have e: "parser_next ?r = Inr ?r1"
    by code_simp
  have f: "parser_next ?r1 = Inl UnclosedComment"
    by code_simp
  have g: "parser_next ?u = Inl UnclosedComment"
    by code_simp
  have "currentToken ?p = Some Tok_Asm" and "currentToken ?q = Some Tok_Asm"
    and "currentToken ?r = Some Tok_Asm" and "currentToken ?u = Some Tok_Asm"
    by simp_all
  from asm_errors [OF this(1), of ?p1 "Finite 7" ?p2 "[]"]
    asm_errors [OF this(2), of ?q1 _ _ "[]" _ "Tok_Variable (js ''a'')"]
    asm_errors [OF this(3), of ?r1 "Finite 7" _ "[]" UnclosedComment]
    asm_errors [OF this(4), of _ _ _ "[]" UnclosedComment]
    a b c d e f g
  show ?thesis by simp
qed

section \<open>A close bracket at the outermost depth\<close>

lemma tokenizer_next_closing: "tokenizer_next (closing s) = Inr (Some Tok_CloseBracket, s)"
  by (simp add: closing_def tokenizer_next.simps isWhitespace_def isDigit_def isLower_def ch_def
      symbols_def)

lemma eat_append: "eat c m src = Inr rest \<Longrightarrow> eat c m (src @ x) = Inr (rest @ x)"
  by (cases src) (auto simp: eat_def currentChar_def split: if_splits)

lemma skipComment_loop_append:
  "skipComment_loop src \<noteq> [] \<Longrightarrow> skipComment_loop (src @ x) = skipComment_loop src @ x"
  by (induction src) auto

lemma skipComment_append:
  assumes "skipComment src = Inr rest"
  shows "skipComment (src @ x) = Inr (rest @ x)"
proof -
  from assms have e: "eat (ch CHR ''}'') (Some UnclosedComment) (skipComment_loop src) = Inr rest"
    by (simp add: skipComment_def)
  then have "skipComment_loop src \<noteq> []"
    by (auto simp: eat_def currentChar_def)
  then have "skipComment_loop (src @ x) = skipComment_loop src @ x"
    by (rule skipComment_loop_append)
  with eat_append [OF e, of x] show ?thesis
    by (simp add: skipComment_def)
qed

lemma nextChar_append:
  "nextChar src = Inr (t, rest) \<Longrightarrow> nextChar (src @ x) = Inr (t, rest @ x)"
  by (cases src) (auto simp: nextChar_def eat_def currentChar_def split: if_splits list.splits)

lemma nextString_loop_append:
  "nextString_loop src = (str, rest) \<Longrightarrow> rest \<noteq> [] \<Longrightarrow>
   nextString_loop (src @ x) = (str, rest @ x)"
  by (induction src arbitrary: str rest) (auto split: if_splits prod.splits)

lemma nextString_append:
  assumes "nextString src = Inr (t, rest)"
  shows "nextString (src @ x) = Inr (t, rest @ x)"
proof -
  from assms obtain src1 str src2 where
    e1: "eat 0x22 None src = Inr src1" and l: "nextString_loop src1 = (str, src2)"
    and e2: "eat 0x22 None src2 = Inr rest" and t: "t = Tok_String str"
    by (auto simp: nextString_def split: sum.splits prod.splits)
  from e2 have "src2 \<noteq> []" by (auto simp: eat_def currentChar_def)
  with l have "nextString_loop (src1 @ x) = (str, src2 @ x)"
    by (rule nextString_loop_append)
  with eat_append [OF e1, of x] eat_append [OF e2, of x] t show ?thesis
    by (simp add: nextString_def)
qed

lemma nextNumber_loop_append:
  "nextNumber_loop src = (ds, rest) \<Longrightarrow> \<not> isDigit c \<Longrightarrow>
   nextNumber_loop (src @ c # s) = (ds, rest @ c # s)"
  by (induction src arbitrary: ds rest) (auto split: if_splits prod.splits)

lemma nextNumber_append:
  "nextNumber src = (t, rest) \<Longrightarrow> nextNumber (src @ closing s) = (t, rest @ closing s)"
proof -
  assume a: "nextNumber src = (t, rest)"
  obtain ds where l: "nextNumber_loop src = (ds, rest)" and t: "t = Tok_Integer (parseInt ds)"
    using a by (auto simp: nextNumber_def split: prod.splits)
  have "\<not> isDigit (ch CHR '']'')" by (simp add: isDigit_def ch_def)
  with l have "nextNumber_loop (src @ ch CHR '']'' # s) = (ds, rest @ ch CHR '']'' # s)"
    by (rule nextNumber_loop_append)
  with t show ?thesis
    by (simp add: nextNumber_def closing_def)
qed

lemma tokenizer_next_append:
  "tokenizer_next src = Inr (v, rest) \<Longrightarrow>
   tokenizer_next (src @ closing s) =
     (case v of None \<Rightarrow> Inr (Some Tok_CloseBracket, s) | Some t \<Rightarrow> Inr (Some t, rest @ closing s))"
proof (induction src rule: tokenizer_next.induct)
  case 1
  then show ?case by (simp add: tokenizer_next.simps tokenizer_next_closing)
next
  case (2 c cs)
  show ?case
  proof (cases "isWhitespace c")
    case True
    with 2 show ?thesis by (simp add: tokenizer_next.simps)
  next
    case ws: False
    show ?thesis
    proof (cases "c = ch CHR ''{''")
      case True
      with ws "2.prems" obtain r where sk: "skipComment (c # cs) = Inr r"
        and n: "tokenizer_next r = Inr (v, rest)"
        by (auto simp: tokenizer_next.simps split: sum.splits)
      from "2.IH"(2) [OF ws True sk n] skipComment_append [OF sk, of "closing s"] ws True
      show ?thesis by (simp add: tokenizer_next.simps)
    next
      case cm: False
      show ?thesis
      proof (cases "c = 0x27")
        case True
        with ws cm "2.prems" obtain t where nc: "nextChar (c # cs) = Inr (t, rest)" and v: "v = Some t"
          by (auto simp: tokenizer_next.simps split: sum.splits)
        from nextChar_append [OF nc, of "closing s"] ws cm True v show ?thesis
          by (simp add: tokenizer_next.simps)
      next
        case q: False
        show ?thesis
        proof (cases "c = 0x22")
          case True
          with ws cm q "2.prems" obtain t where nc: "nextString (c # cs) = Inr (t, rest)"
            and v: "v = Some t"
            by (auto simp: tokenizer_next.simps split: sum.splits)
          from nextString_append [OF nc, of "closing s"] ws cm q True v show ?thesis
            by (simp add: tokenizer_next.simps)
        next
          case dq: False
          show ?thesis
          proof (cases "isDigit c")
            case True
            with ws cm q dq "2.prems" obtain t where nc: "nextNumber (c # cs) = (t, rest)"
              and v: "v = Some t"
              by (auto simp: tokenizer_next.simps split: prod.splits)
            from nextNumber_append [OF nc, of s] ws cm q dq True v show ?thesis
              by (simp add: tokenizer_next.simps)
          next
            case dg: False
            with ws cm q dq "2.prems" show ?thesis
              by (auto simp: tokenizer_next.simps nextVariable_def split: option.splits if_splits)
          qed
        qed
      qed
    qed
  qed
qed

lemma parser_next_stream: "parser_next p = Inr p1 \<Longrightarrow> lex_all (tokenizer p) = stream p1"
  by (subst lex_all.simps)
    (auto simp: parser_next_def stream_def split: sum.splits prod.splits option.splits)

lemma parser_next_extend:
  assumes "parser_next p = Inr p1"
  shows "parser_next \<lparr>tokenizer = tokenizer p @ closing s, currentToken = v\<rparr> = Inr (with_closing s p1)"
proof -
  from assms obtain w rest where t: "tokenizer_next (tokenizer p) = Inr (w, rest)"
    and p1: "p1 = \<lparr>tokenizer = rest, currentToken = w\<rparr>"
    by (auto simp: parser_next_def split: sum.splits prod.splits)
  from tokenizer_next_append [OF t, of s] p1 show ?thesis
    by (cases w) (simp_all add: parser_next_def with_closing_def)
qed

lemma stream_Some:
  assumes "currentToken p = Some tok" and "stream p = Inr ts"
  obtains ts1 where "ts = tok # ts1" and "lex_all (tokenizer p) = Inr ts1"
  using assms by (auto simp: stream_def split: sum.splits)

lemma extend_Some:
  "currentToken p = Some tok \<Longrightarrow>
   with_closing s p = \<lparr>tokenizer = tokenizer p @ closing s, currentToken = Some tok\<rparr>"
  by (simp add: with_closing_def)

lemma branch_of_Close: "branch_of tok = Close \<Longrightarrow> tok = Tok_CloseBracket"
  by (cases tok) simp_all

lemma parseStatements_loop_extend:
  "parseStatements_loop statements p = Inr (res, p') \<Longrightarrow> stream p = Inr ts \<Longrightarrow> balanced d ts \<Longrightarrow>
   parseStatements_loop statements (with_closing s p) = Inr (res, with_closing s p')
   \<and> (if d = 0 then currentToken p' = None
       else \<exists>ts'. stream p' = Inr (Tok_CloseBracket # ts') \<and> balanced (d - 1) ts')"
proof (induction statements p arbitrary: res p' ts d rule: parseStatements_loop.induct)
  case (1 statements p)
  from "1.prems"(1) show ?case
  proof (cases rule: parseStatements_loop_returns)
    case Done
    with "1.prems"(2) have "ts = []" by (simp add: stream_def)
    with "1.prems"(3) have d: "d = 0" by simp
    from Done have e: "with_closing s p = \<lparr>tokenizer = s, currentToken = Some Tok_CloseBracket\<rparr>"
      by (simp add: with_closing_def)
    have "parseStatements_loop statements (with_closing s p) = Inr (statements, with_closing s p)"
      unfolding e by (rule parseStatements_loop_Close [where tok = Tok_CloseBracket]) simp_all
    with Done d show ?thesis by simp
  next
    case (Instr tok node p1)
    from Instr(1) "1.prems"(2) obtain ts1 where ts: "ts = tok # ts1"
      and l: "lex_all (tokenizer p) = Inr ts1" by (rule stream_Some)
    from l parser_next_stream [OF Instr(3)] have s1: "stream p1 = Inr ts1" by simp
    from "1.prems"(3) ts Instr(2) have b1: "balanced d ts1" by simp
    from "1.IH"(1) [OF Instr(1,2,3,4) s1 b1]
    have ih: "parseStatements_loop (statements @ [node]) (with_closing s p1) = Inr (res, with_closing s p')"
      and post: "if d = 0 then currentToken p' = None
       else \<exists>ts'. stream p' = Inr (Tok_CloseBracket # ts') \<and> balanced (d - 1) ts'"
      by blast+
    have "parseStatements_loop statements (with_closing s p) = Inr (res, with_closing s p')"
      unfolding extend_Some [OF Instr(1)]
      by (subst parseStatements_loop_Instr [where tok = tok and node = node])
        (simp_all add: Instr(2) parser_next_extend [OF Instr(3)] ih)
    with post show ?thesis by simp
  next
    case (Open tok p1 body p2 p3)
    from Open(1) "1.prems"(2) obtain ts1 where ts: "ts = tok # ts1"
      and l: "lex_all (tokenizer p) = Inr ts1" by (rule stream_Some)
    from l parser_next_stream [OF Open(3)] have s1: "stream p1 = Inr ts1" by simp
    from "1.prems"(3) ts Open(2) have b1: "balanced (Suc d) ts1" by simp
    from "1.IH"(2) [OF Open(1,2,3,4) s1 b1]
    obtain ts2 where ih1: "parseStatements_loop [] (with_closing s p1) = Inr (body, with_closing s p2)"
      and s2: "stream p2 = Inr (Tok_CloseBracket # ts2)" and b2: "balanced d ts2"
      by auto
    from s2 have c2: "currentToken p2 = Some Tok_CloseBracket"
      by (auto simp: stream_def split: option.splits sum.splits)
    from c2 s2 have l2: "lex_all (tokenizer p2) = Inr ts2"
      by (auto simp: stream_def split: sum.splits)
    from l2 parser_next_stream [OF Open(5)] have s3: "stream p3 = Inr ts2" by simp
    from "1.IH"(3) [OF Open(1,2,3,4) refl Open(5,6) s3 b2]
    have ih2: "parseStatements_loop (statements @ [Quote body]) (with_closing s p3) = Inr (res, with_closing s p')"
      and post: "if d = 0 then currentToken p' = None
       else \<exists>ts'. stream p' = Inr (Tok_CloseBracket # ts') \<and> balanced (d - 1) ts'"
      by blast+
    have n2: "parser_next (with_closing s p2) = Inr (with_closing s p3)"
      unfolding extend_Some [OF c2] by (rule parser_next_extend [OF Open(5)])
    have "parseStatements_loop statements (with_closing s p) = Inr (res, with_closing s p')"
      unfolding extend_Some [OF Open(1)]
      by (subst parseStatements_loop_Open [where tok = tok])
        (simp_all add: Open(2) parser_next_extend [OF Open(3)] ih1 n2 ih2)
    with post show ?thesis by simp
  next
    case (Close tok)
    from Close(1) "1.prems"(2) obtain ts1 where ts: "ts = tok # ts1"
      and l: "lex_all (tokenizer p) = Inr ts1" by (rule stream_Some)
    from "1.prems"(3) ts Close(2) have d: "0 < d" and b1: "balanced (d - 1) ts1" by simp_all
    from Close(2) have tok: "tok = Tok_CloseBracket" by (rule branch_of_Close)
    have "parseStatements_loop statements (with_closing s p) = Inr (statements, with_closing s p)"
      unfolding extend_Some [OF Close(1)]
      by (rule parseStatements_loop_Close [where tok = tok]) (simp_all add: Close(2))
    with Close(3,4) d b1 "1.prems"(2) ts tok show ?thesis by simp
  next
    case (NoOp tok p1)
    from NoOp(1) "1.prems"(2) obtain ts1 where ts: "ts = tok # ts1"
      and l: "lex_all (tokenizer p) = Inr ts1" by (rule stream_Some)
    from l parser_next_stream [OF NoOp(3)] have s1: "stream p1 = Inr ts1" by simp
    from "1.prems"(3) ts NoOp(2) have b1: "balanced d ts1" by simp
    from "1.IH"(4) [OF NoOp(1,2,3,4) s1 b1]
    have ih: "parseStatements_loop statements (with_closing s p1) = Inr (res, with_closing s p')"
      and post: "if d = 0 then currentToken p' = None
       else \<exists>ts'. stream p' = Inr (Tok_CloseBracket # ts') \<and> balanced (d - 1) ts'"
      by blast+
    have "parseStatements_loop statements (with_closing s p) = Inr (res, with_closing s p')"
      unfolding extend_Some [OF NoOp(1)]
      by (subst parseStatements_loop_NoOp [where tok = tok])
        (simp_all add: NoOp(2) parser_next_extend [OF NoOp(3)] ih)
    with post show ?thesis by simp
  qed
qed

lemma parse_run_closing:
  assumes "lex_all prefix = Inr ts" and "balanced 0 ts" and "parse prefix = Inr ast"
  shows "parse_run (prefix @ closing s)
     = Inr (ast, \<lparr>tokenizer = s, currentToken = Some Tok_CloseBracket\<rparr>)"
proof -
  let ?p0 = "\<lparr>tokenizer = prefix, currentToken = None\<rparr>"
  from assms(3) obtain p1 p' where n: "parser_next ?p0 = Inr p1"
    and r: "parseStatements_loop [] p1 = Inr (ast, p')"
    by (auto simp: parse_def parse_run_def parseStatements_def split: sum.splits prod.splits)
  from parser_next_stream [OF n] assms(1) have s1: "stream p1 = Inr ts" by simp
  from parseStatements_loop_extend [OF r s1 assms(2), of s]
  have e: "parseStatements_loop [] (with_closing s p1) = Inr (ast, with_closing s p')"
    and c: "currentToken p' = None" by simp_all
  from c have "with_closing s p' = \<lparr>tokenizer = s, currentToken = Some Tok_CloseBracket\<rparr>"
    by (simp add: with_closing_def)
  with e parser_next_extend [OF n, of s None] show ?thesis
    by (simp add: parse_run_def parseStatements_def)
qed

text \<open>
  C10. Let a prefix be valid: it lexes to its end, its brackets are balanced, and it parses
  to an AST. Then the prefix followed by a close bracket and by any suffix parses to the
  same AST. The parser returns with that close bracket as its current token and with
  the whole suffix unread by the tokenizer; so the result is the same for every suffix,
  also for one that would not lex, and the emitted IR is that of the prefix.
\<close>

theorem close_bracket_ends_parsing:
  assumes "lex_all prefix = Inr ts" and "balanced 0 ts" and "parse prefix = Inr ast"
  shows "parse_run (prefix @ ch CHR '']'' # suffix)
           = Inr (ast, \<lparr>tokenizer = suffix, currentToken = Some Tok_CloseBracket\<rparr>)
       \<and> parse (prefix @ ch CHR '']'' # suffix) = Inr ast
       \<and> map_sum (\<lambda>e. e) (compile head) (parse (prefix @ ch CHR '']'' # suffix))
           = Inr (compile head ast)"
  using parse_run_closing [OF assms, of suffix]
  by (simp add: parse_def closing_def)

theorem close_bracket_ends_parsing_witness:
  "lex_all (js ''1 [2] '') = Inr [Tok_Integer (Finite 1), Tok_OpenBracket, Tok_Integer (Finite 2), Tok_CloseBracket]
   \<and> balanced 0 [Tok_Integer (Finite 1), Tok_OpenBracket, Tok_Integer (Finite 2), Tok_CloseBracket]
   \<and> parse (js ''1 [2] '') = Inr [Integer (Finite 1), Quote [Integer (Finite 2)]]
   \<and> tokenizer_next (js ''E {'') = Inl (InvalidCharacter (ch CHR ''E''))
   \<and> parse_run (js ''1 [2] ]E {'')
       = Inr ([Integer (Finite 1), Quote [Integer (Finite 2)]],
           \<lparr>tokenizer = js ''E {'', currentToken = Some Tok_CloseBracket\<rparr>)
   \<and> parse (js ''1 [2] ]E {'') = Inr [Integer (Finite 1), Quote [Integer (Finite 2)]]"
proof -
  have l: "lex_all (js ''1 [2] '')
      = Inr [Tok_Integer (Finite 1), Tok_OpenBracket, Tok_Integer (Finite 2), Tok_CloseBracket]"
    by code_simp
  have b: "balanced 0 [Tok_Integer (Finite 1), Tok_OpenBracket, Tok_Integer (Finite 2), Tok_CloseBracket]"
    by simp
  have p: "parse (js ''1 [2] '') = Inr [Integer (Finite 1), Quote [Integer (Finite 2)]]"
    by code_simp
  have e: "tokenizer_next (js ''E {'') = Inl (InvalidCharacter (ch CHR ''E''))"
    by code_simp
  have j: "js ''1 [2] '' @ ch CHR '']'' # js ''E {'' = js ''1 [2] ]E {''"
    by (simp add: js_def)
  from close_bracket_ends_parsing [OF l b p, of "js ''E {''" "[]"] l b p e j
  show ?thesis by simp
qed

section \<open>Generated names\<close>

text \<open>
  The decimal digits of a number determine it, so a generator never gives the same name for
  two ids.
\<close>

lemma decimal_snoc: "decimal (ds @ [d]) = 10 * decimal ds + d"
  by (simp add: decimal_def)

lemma decimal_digits10: "decimal (digits10 n) = n"
proof (induction n rule: digits10.induct)
  case (1 n)
  show ?case
  proof (cases "n < 10")
    case True
    then show ?thesis by (subst digits10.simps) (simp add: decimal_def)
  next
    case False
    with 1 show ?thesis by (subst digits10.simps) (simp add: decimal_snoc)
  qed
qed

lemma digits10_less: "d \<in> set (digits10 n) \<Longrightarrow> d < 10"
proof (induction n rule: digits10.induct)
  case (1 n)
  show ?case
  proof (cases "n < 10")
    case True
    with "1.prems" show ?thesis by (subst (asm) digits10.simps) simp
  next
    case False
    with 1 show ?thesis by (subst (asm) (2) digits10.simps) auto
  qed
qed

lemma digit_cu_unat: "d < 10 \<Longrightarrow> unat (digit_cu d) = 48 + d"
  unfolding digit_cu_def unat_of_nat by simp

lemma digit_cu_inj: "d < 10 \<Longrightarrow> e < 10 \<Longrightarrow> digit_cu d = digit_cu e \<Longrightarrow> d = e"
proof -
  assume d: "d < 10" and e: "e < 10" and eq: "digit_cu d = digit_cu e"
  from eq have "unat (digit_cu d) = unat (digit_cu e)" by (rule arg_cong)
  with d e show "d = e" by (simp only: digit_cu_unat)
qed

lemma show_nat_inj: "show_nat n = show_nat m \<longleftrightarrow> n = m"
proof
  assume "show_nat n = show_nat m"
  then have "map digit_cu (digits10 n) = map digit_cu (digits10 m)"
    by (simp add: show_nat_def)
  then have "digits10 n = digits10 m"
  proof (rule map_inj_on)
    show "inj_on digit_cu (set (digits10 n) \<union> set (digits10 m))"
    proof (rule inj_onI)
      fix d e
      assume "d \<in> set (digits10 n) \<union> set (digits10 m)"
        and "e \<in> set (digits10 n) \<union> set (digits10 m)"
      then have "d < 10" and "e < 10" by (auto dest: digits10_less)
      moreover assume "digit_cu d = digit_cu e"
      ultimately show "d = e" by (rule digit_cu_inj)
    qed
  qed
  then have "decimal (digits10 n) = decimal (digits10 m)" by simp
  then show "n = m" by (simp add: decimal_digits10)
qed simp

lemma generated_name_inj: "template @ show_nat n = template @ show_nat m \<longleftrightarrow> n = m"
  by (simp add: show_nat_inj)


section \<open>Arithmetic and comparison\<close>

lemma tmp_inj [simp]: "tmp n = tmp m \<longleftrightarrow> n = m"
  by (simp add: tmp_def show_nat_inj)

lemma basicOp_instructions:
  "instructions (basicOp op l)
     = instructions l @ map render (basicOp_ir op (temporaryGenerator l))"
  and basicOp_generator: "temporaryGenerator (basicOp op l) = temporaryGenerator l + 3"
  by (simp_all add: basicOp_def temporary_def generator_next_def push_def basicOp_ir_def tmp_def
      numeral_3_eq_3 numeral_2_eq_2)

lemma cmp_instructions:
  "instructions (cmp op l) = instructions l @ map render (cmp_ir op (temporaryGenerator l))"
  and cmp_generator: "temporaryGenerator (cmp op l) = temporaryGenerator l + 4"
  by (simp_all add: cmp_def temporary_def generator_next_def push_def cmp_ir_def tmp_def
      numeral_3_eq_3 numeral_2_eq_2 eval_nat_numeral)


lemma exec_basicOp_ir:
  "binop op a b = Some v \<Longrightarrow>
   map_option stack (exec_all (basicOp_ir op n) \<lparr>regs = r, stack = b # a # st\<rparr>) = Some (v # st)"
  by (simp add: basicOp_ir_def)

lemma exec_cmp_ir:
  "icmp op a b = Some v \<Longrightarrow>
   map_option stack (exec_all (cmp_ir op n) \<lparr>regs = r, stack = b # a # st\<rparr>)
     = Some ((if v then - 1 else 0) # st)"
  by (simp add: cmp_ir_def)


lemma binop_simps:
  "binop (js ''add'') a b = Some (a + b)"
  "binop (js ''sub'') a b = Some (a - b)"
  "binop (js ''mul'') a b = Some (a * b)"
  "binop (js ''sdiv'') a b = sdiv32 a b"
  by (simp_all add: binop_def js_def ch_def)

lemma icmp_simps:
  "icmp (js ''eq'') a b = Some (a = b)"
  "icmp (js ''sgt'') a b = Some (sint b < sint a)"
  by (simp_all add: icmp_def js_def ch_def)


text \<open>
  C6. \<open>Plus\<close>, \<open>Minus\<close>, \<open>Mul\<close> and \<open>Div\<close> are lowered by \<open>basicOp\<close> with \<open>add\<close>,
  \<open>sub\<close>, \<open>mul\<close> and \<open>sdiv\<close>. The four lines it emits pop the top of the stack into the
  first fresh temporary (\<open>b\<close>), pop the next cell into the second (\<open>a\<close>), compute the
  operation with \<open>a\<close> as the left and \<open>b\<close> as the right operand, and push the result. On a
  stack \<open>b # a # st\<close> they leave \<open>a + b\<close>, \<open>a - b\<close>, \<open>a * b\<close> and, where the signed
  quotient is defined, \<open>a sdiv b\<close> on top of \<open>st\<close>.
\<close>

theorem arithmetic_lowering:
  "compile_node Plus (c, l) = (c, basicOp (js ''add'') l)
   \<and> compile_node Minus (c, l) = (c, basicOp (js ''sub'') l)
   \<and> compile_node Mul (c, l) = (c, basicOp (js ''mul'') l)
   \<and> compile_node Div (c, l) = (c, basicOp (js ''sdiv'') l)
   \<and> instructions (basicOp op l)
       = instructions l @ map render (basicOp_ir op (temporaryGenerator l))
   \<and> basicOp_ir op n
       = [Pop_int (tmp n), Pop_int (tmp (n + 1)),
          Binop (tmp (n + 2)) op (tmp (n + 1)) (tmp n), Push_int (tmp (n + 2))]
   \<and> map_option stack (exec_all (basicOp_ir (js ''add'') n) \<lparr>regs = r, stack = b # a # st\<rparr>)
       = Some ((a + b) # st)
   \<and> map_option stack (exec_all (basicOp_ir (js ''sub'') n) \<lparr>regs = r, stack = b # a # st\<rparr>)
       = Some ((a - b) # st)
   \<and> map_option stack (exec_all (basicOp_ir (js ''mul'') n) \<lparr>regs = r, stack = b # a # st\<rparr>)
       = Some ((a * b) # st)
   \<and> (b \<noteq> 0 \<and> \<not> (a = - (2 ^ 31) \<and> b = - 1) \<longrightarrow>
        map_option stack (exec_all (basicOp_ir (js ''sdiv'') n) \<lparr>regs = r, stack = b # a # st\<rparr>)
          = Some (word_of_int (sint a sdiv sint b) # st))"
proof -
  have "b \<noteq> 0 \<and> \<not> (a = - (2 ^ 31) \<and> b = - 1) \<Longrightarrow>
      binop (js ''sdiv'') a b = Some (word_of_int (sint a sdiv sint b))"
    by (auto simp: binop_simps sdiv32_def)
  then show ?thesis
    by (simp add: basicOp_instructions exec_basicOp_ir binop_simps) (simp add: basicOp_ir_def)
qed

theorem arithmetic_lowering_witness:
  "instructions (snd (compile_node Minus (new_Compiler, new_Locals)))
     = [ js ''%t1 = call i32 @stack_pop_int()'',
         js ''%t2 = call i32 @stack_pop_int()'',
         js ''%t3 = sub i32 %t2, %t1'',
         js ''call void @stack_push_int(i32 %t3)'' ]
   \<and> map_option stack
        (exec_all (basicOp_ir (js ''sub'') 1) \<lparr>regs = Map.empty, stack = [2, 7, 9]\<rparr>)
       = Some [5, 9]
   \<and> map_option stack
        (exec_all (basicOp_ir (js ''sdiv'') 1) \<lparr>regs = Map.empty, stack = [2, - 7, 9]\<rparr>)
       = Some [- 3, 9]"
proof -
  note th = arithmetic_lowering [of new_Compiler new_Locals "js ''sub''" 1 Map.empty 2 7 "[9]"]
  note th' = arithmetic_lowering [of new_Compiler new_Locals "js ''sub''" 1 Map.empty 2 "- 7" "[9]"]
  from th have i: "compile_node Minus (new_Compiler, new_Locals)
      = (new_Compiler, basicOp (js ''sub'') new_Locals)"
    by blast
  have t: "instructions (basicOp (js ''sub'') new_Locals)
     = [ js ''%t1 = call i32 @stack_pop_int()'',
         js ''%t2 = call i32 @stack_pop_int()'',
         js ''%t3 = sub i32 %t2, %t1'',
         js ''call void @stack_push_int(i32 %t3)'' ]"
    by code_simp
  from th have e: "map_option stack
        (exec_all (basicOp_ir (js ''sub'') 1) \<lparr>regs = Map.empty, stack = [2, 7, 9]\<rparr>)
       = Some ((7 - 2) # [9])"
    by blast
  have d: "(2 :: 32 word) \<noteq> 0 \<and> \<not> ((- 7 :: 32 word) = - (2 ^ 31) \<and> (2 :: 32 word) = - 1)"
    by simp
  with th' have e': "map_option stack
        (exec_all (basicOp_ir (js ''sdiv'') 1) \<lparr>regs = Map.empty, stack = [2, - 7, 9]\<rparr>)
       = Some (word_of_int (sint (- 7 :: 32 word) sdiv sint (2 :: 32 word)) # [9])"
    by blast
  have v: "(word_of_int (sint (- 7 :: 32 word) sdiv sint (2 :: 32 word)) :: 32 word) = - 3"
    by (simp add: signed_divide_int_def)
  from i t e e' v show ?thesis by simp
qed

text \<open>
  C7. \<open>Equal\<close> and \<open>GreaterThan\<close> are lowered by \<open>cmp\<close> with \<open>eq\<close> and \<open>sgt\<close>. The
  five lines it emits pop \<open>b\<close>, pop \<open>a\<close>, compare \<open>a\<close> against \<open>b\<close>, sign-extend
  the \<open>i1\<close> to \<open>i32\<close> and push it: on a stack \<open>b # a # st\<close> they leave -1 on top of
  \<open>st\<close> when the comparison holds and 0 when it does not.
\<close>

theorem comparison_lowering:
  "compile_node Equal (c, l) = (c, cmp (js ''eq'') l)
   \<and> compile_node GreaterThan (c, l) = (c, cmp (js ''sgt'') l)
   \<and> instructions (cmp op l) = instructions l @ map render (cmp_ir op (temporaryGenerator l))
   \<and> cmp_ir op n
       = [Pop_int (tmp n), Pop_int (tmp (n + 1)),
          Icmp (tmp (n + 2)) op (tmp (n + 1)) (tmp n),
          Sext (tmp (n + 3)) (tmp (n + 2)), Push_int (tmp (n + 3))]
   \<and> map_option stack (exec_all (cmp_ir (js ''eq'') n) \<lparr>regs = r, stack = b # a # st\<rparr>)
       = Some ((if a = b then - 1 else 0) # st)
   \<and> map_option stack (exec_all (cmp_ir (js ''sgt'') n) \<lparr>regs = r, stack = b # a # st\<rparr>)
       = Some ((if sint b < sint a then - 1 else 0) # st)"
  by (simp add: cmp_instructions exec_cmp_ir icmp_simps) (simp add: cmp_ir_def)

theorem comparison_lowering_witness:
  "instructions (snd (compile_node GreaterThan (new_Compiler, new_Locals)))
     = [ js ''%t1 = call i32 @stack_pop_int()'',
         js ''%t2 = call i32 @stack_pop_int()'',
         js ''%t3 = icmp sgt i32 %t2, %t1'',
         js ''%t4 = sext i1 %t3 to i32'',
         js ''call void @stack_push_int(i32 %t4)'' ]
   \<and> map_option stack
        (exec_all (cmp_ir (js ''sgt'') 1) \<lparr>regs = Map.empty, stack = [- 2, 7, 9]\<rparr>)
       = Some [- 1, 9]
   \<and> map_option stack
        (exec_all (cmp_ir (js ''sgt'') 1) \<lparr>regs = Map.empty, stack = [7, - 2, 9]\<rparr>)
       = Some [0, 9]
   \<and> map_option stack
        (exec_all (cmp_ir (js ''eq'') 1) \<lparr>regs = Map.empty, stack = [7, 7, 9]\<rparr>)
       = Some [- 1, 9]"
proof -
  note th1 = comparison_lowering [of new_Compiler new_Locals "js ''sgt''" 1 Map.empty "- 2" 7 "[9]"]
  note th2 = comparison_lowering [of new_Compiler new_Locals "js ''sgt''" 1 Map.empty 7 "- 2" "[9]"]
  note th3 = comparison_lowering [of new_Compiler new_Locals "js ''sgt''" 1 Map.empty 7 7 "[9]"]
  from th1 have i: "compile_node GreaterThan (new_Compiler, new_Locals)
      = (new_Compiler, cmp (js ''sgt'') new_Locals)"
    by blast
  have t: "instructions (cmp (js ''sgt'') new_Locals)
     = [ js ''%t1 = call i32 @stack_pop_int()'',
         js ''%t2 = call i32 @stack_pop_int()'',
         js ''%t3 = icmp sgt i32 %t2, %t1'',
         js ''%t4 = sext i1 %t3 to i32'',
         js ''call void @stack_push_int(i32 %t4)'' ]"
    by code_simp
  from th1 have e1: "map_option stack
        (exec_all (cmp_ir (js ''sgt'') 1) \<lparr>regs = Map.empty, stack = [- 2, 7, 9]\<rparr>)
       = Some ((if sint (- 2 :: 32 word) < sint (7 :: 32 word) then - 1 else 0) # [9])"
    by blast
  from th2 have e2: "map_option stack
        (exec_all (cmp_ir (js ''sgt'') 1) \<lparr>regs = Map.empty, stack = [7, - 2, 9]\<rparr>)
       = Some ((if sint (7 :: 32 word) < sint (- 2 :: 32 word) then - 1 else 0) # [9])"
    by blast
  from th3 have e3: "map_option stack
        (exec_all (cmp_ir (js ''eq'') 1) \<lparr>regs = Map.empty, stack = [7, 7, 9]\<rparr>)
       = Some ((if (7 :: 32 word) = 7 then - 1 else 0) # [9])"
    by blast
  from i t e1 e2 e3 show ?thesis by simp
qed


section \<open>Interned strings\<close>

lemma strName_inj: "strName k = strName m \<longleftrightarrow> k = m"
  by (simp add: strName_def show_nat_inj)

lemma strings_inv_new: "strings_inv new_Compiler"
  by (simp add: strings_inv_def new_Compiler_def)

lemma table_grows_refl: "table_grows c c"
  by (simp add: table_grows_def)

lemma table_grows_trans: "table_grows c c' \<Longrightarrow> table_grows c' c'' \<Longrightarrow> table_grows c c''"
  by (auto simp: table_grows_def)

lemma table_grows_same:
  "strings c' = strings c \<Longrightarrow> stringNameGenerator c' = stringNameGenerator c \<Longrightarrow> table_grows c c'"
  by (simp add: table_grows_def strings_inv_def)

lemma getConstString_found:
  "map_of (strings c) str = Some name \<Longrightarrow> getConstString str c = (name, c)"
  by (simp add: getConstString_def)

lemma getConstString_new:
  "map_of (strings c) str = None \<Longrightarrow>
   getConstString str c
     = (strName (stringNameGenerator c),
        c\<lparr>strings := strings c @ [(str, strName (stringNameGenerator c))],
          stringNameGenerator := stringNameGenerator c + 1\<rparr>)"
  by (simp add: getConstString_def generator_next_def strName_def)

lemma getConstString_lookup:
  "map_of (strings (snd (getConstString str c))) str = Some (fst (getConstString str c))"
proof (cases "map_of (strings c) str")
  case None
  then show ?thesis by (simp add: getConstString_new map_add_def)
next
  case (Some name)
  then show ?thesis by (simp add: getConstString_found)
qed

lemma getConstString_grows: "table_grows c (snd (getConstString str c))"
proof (cases "map_of (strings c) str")
  case None
  then have "str \<notin> fst ` set (strings c)" by (simp add: map_of_eq_None_iff)
  with None show ?thesis
    by (auto simp: getConstString_new table_grows_def strings_inv_def)
next
  case (Some name)
  then show ?thesis by (simp add: getConstString_found table_grows_refl)
qed

lemma compile_nodes_state: "snd (compile_nodes nodes c) = fst (compile_loop nodes (c, new_Locals))"
  by (simp split: prod.splits)

lemma compile_grows:
  "table_grows c (snd (compile_nodes nodes c))"
  "table_grows (fst s) (fst (compile_loop nodes' s))"
  "table_grows (fst s') (fst (compile_node node s'))"
  "table_grows c' (snd (getFunction nodes'' c'))"
proof (induction nodes c and nodes' s and node s' and nodes'' c'
    rule: compile_nodes_compile_loop_compile_node_getFunction.induct)
  case (1 nodes c)
  then show ?case by (simp only: compile_nodes_state fst_conv)
next
  case (2 s)
  then show ?case by (simp add: table_grows_refl)
next
  case (3 node nodes s)
  then show ?case by (auto intro: table_grows_trans)
next
  case (5 str c l)
  show ?case using getConstString_grows [of c str] by (auto split: prod.splits)
next
  case (7 body c l)
  then show ?case by (auto split: prod.splits)
next
  case (31 nodes c)
  show ?case
  proof (cases "find (\<lambda>(val, _, _). astEqual (V_array nodes) (V_array val)) (functions' c)")
    case (Some entry)
    then show ?thesis by (simp add: table_grows_refl split: prod.splits)
  next
    case None
    let ?c1 = "c\<lparr>lambdaNameGenerator := lambdaNameGenerator c + 1\<rparr>"
    have g1: "table_grows c ?c1" by (rule table_grows_same) simp_all
    obtain body c2 where r: "compile_nodes nodes ?c1 = (body, c2)"
      by (cases "compile_nodes nodes ?c1")
    from 31 [OF None] r have g2: "table_grows ?c1 c2"
      by (simp add: generator_next_def)
    have g3: "table_grows c2 (c2\<lparr>functions' := f\<rparr>)" for f
      by (rule table_grows_same) simp_all
    from None r show ?thesis
      using table_grows_trans [OF table_grows_trans [OF g1 g2] g3]
      by (simp add: generator_next_def Let_def)
  qed
qed (simp_all add: table_grows_refl split: prod.splits)

lemma table_grows_inv: "table_grows c c' \<Longrightarrow> strings_inv c \<Longrightarrow> strings_inv c'"
  by (simp add: table_grows_def)

lemma table_grows_lookup:
  "table_grows c c' \<Longrightarrow> strings_inv c \<Longrightarrow> map_of (strings c) s = Some n \<Longrightarrow>
   map_of (strings c') s = Some n"
  by (auto simp: table_grows_def map_add_def)

lemma strings_inv_distinct_names: "strings_inv c \<Longrightarrow> distinct (map snd (strings c))"
  by (simp add: strings_inv_def distinct_map inj_on_def strName_inj)

lemma strings_inv_injective:
  assumes "strings_inv c" and "map_of (strings c) s1 = Some n1" and "map_of (strings c) s2 = Some n2"
  shows "n1 = n2 \<longleftrightarrow> s1 = s2"
proof
  assume "n1 = n2"
  with assms(2,3) have "(s1, n1) \<in> set (strings c)" and "(s2, n1) \<in> set (strings c)"
    by (auto dest: map_of_SomeD)
  moreover from assms(1) have "inj_on snd (set (strings c))"
    using strings_inv_distinct_names [of c] by (simp add: distinct_map)
  ultimately have "(s1, n1) = (s2, n1)"
    by (intro inj_onD [of snd "set (strings c)"]) simp_all
  then show "s1 = s2" by simp
next
  assume "s1 = s2"
  with assms(2,3) show "n1 = n2" by simp
qed

lemma hex_escape_length: "length (hex_escape code) = 3"
  by (simp add: hex_escape_def toString16_def Let_def)

lemma escapes_length: "length (concat (map hex_escape bytes)) = 3 * length bytes"
  by (induction bytes) (simp_all add: hex_escape_length)

lemma string_constant_text:
  "string_constant (str, name)
     = name @ js '' = private unnamed_addr constant ['' @ show_nat (length (encode str) + 1)
         @ js '' x i8] c'' @ [0x22] @ concat (map hex_escape (encode str))
         @ ch (CHR 0x5C) # js ''00'' @ [0x22]"
  by (simp add: string_constant_def encode_string_def Let_def)

lemma strings_inv_compile_loop:
  "strings_inv c \<Longrightarrow> strings_inv (fst (compile_loop nodes (c, l)))"
  using compile_grows(2) [of "(c, l)" nodes] by (simp add: table_grows_def)

lemma strings_inv_compile_nodes:
  "strings_inv c \<Longrightarrow> strings_inv (snd (compile_nodes nodes c))"
  using compile_grows(1) [of c nodes] by (simp add: table_grows_def)

lemma compile_loop_lookup:
  "strings_inv c \<Longrightarrow> map_of (strings c) s = Some n \<Longrightarrow>
   map_of (strings (fst (compile_loop nodes (c, l)))) s = Some n"
  using compile_grows(2) [of "(c, l)" nodes] by (auto dest: table_grows_lookup)

lemma compile_node_String:
  "compile_node (String str) (c, l)
     = (snd (getConstString str c),
        push [js ''call i32 @printf(i8* @.fmt, i8* '' @ fst (getConstString str c) @ js '')''] l)"
  by (simp split: prod.splits)

lemma two_literals:
  assumes "strings_inv c"
  shows "fst (getConstString s1 c)
           = fst (getConstString s2 (fst (compile_loop nodes (snd (getConstString s1 c), l))))
         \<longleftrightarrow> s1 = s2"
proof -
  let ?c1 = "snd (getConstString s1 c)"
  let ?c2 = "fst (compile_loop nodes (?c1, l))"
  let ?c3 = "snd (getConstString s2 ?c2)"
  from assms have i1: "strings_inv ?c1"
    using getConstString_grows [of c s1] by (rule table_grows_inv [rotated])
  then have i2: "strings_inv ?c2" by (rule strings_inv_compile_loop)
  then have i3: "strings_inv ?c3"
    using getConstString_grows [of ?c2 s2] by (rule table_grows_inv [rotated])
  have "map_of (strings ?c1) s1 = Some (fst (getConstString s1 c))"
    by (rule getConstString_lookup)
  with i1 have "map_of (strings ?c2) s1 = Some (fst (getConstString s1 c))"
    by (rule compile_loop_lookup)
  with getConstString_grows [of ?c2 s2] i2
  have l1: "map_of (strings ?c3) s1 = Some (fst (getConstString s1 c))"
    by (rule table_grows_lookup)
  have l2: "map_of (strings ?c3) s2 = Some (fst (getConstString s2 ?c2))"
    by (rule getConstString_lookup)
  from i3 l1 l2 show ?thesis by (rule strings_inv_injective)
qed

lemma Compiler_compile_state:
  "snd (Compiler_compile head ast c) = snd (compile_nodes ast c)"
  by (simp add: Compiler_compile_def split: prod.splits)

text \<open>\<open>encode\<close> yields bytes, so \<open>toString16\<close> is only ever applied to a byte.\<close>

lemma div_less_bound: "(u :: nat) < k * n \<Longrightarrow> u div n < k"
  by (simp add: less_mult_imp_div_less)

lemma utf8_code_point_bytes:
  assumes "u < 0x110000" and "b \<in> set (utf8_code_point u)"
  shows "b < 256"
proof -
  have m: "x mod 64 < 64" for x :: nat by simp
  consider "u < 0x80" | "\<not> u < 0x80" "u < 0x800" | "\<not> u < 0x80" "\<not> u < 0x800" "u < 0x10000"
    | "\<not> u < 0x80" "\<not> u < 0x800" "\<not> u < 0x10000"
    by blast
  then show ?thesis
  proof cases
    case 1
    with assms(2) show ?thesis by (simp add: utf8_code_point_def)
  next
    case 2
    then have "u div 64 < 32" by (intro div_less_bound) simp
    with 2 assms(2) m [of u] show ?thesis
      by (auto simp add: utf8_code_point_def)
  next
    case 3
    then have "u div 4096 < 16" by (intro div_less_bound) simp
    with 3 assms(2) m [of u] m [of "u div 64"] show ?thesis
      by (auto simp add: utf8_code_point_def)
  next
    case 4
    from assms(1) have "u div 262144 < 5" by (intro div_less_bound) simp
    with 4 assms(2) m [of u] m [of "u div 64"] m [of "u div 4096"] show ?thesis
      by (auto simp add: utf8_code_point_def)
  qed
qed

lemma surrogate_pair_bound:
  assumes "isHighSurrogate c" and "isLowSurrogate d"
  shows "0x10000 + (unat c - 0xD800) * 1024 + (unat d - 0xDC00) < (0x110000 :: nat)"
proof -
  from assms have "unat c \<le> 0xDBFF" and "unat d \<le> 0xDFFF"
    by (simp_all add: isHighSurrogate_def isLowSurrogate_def word_le_nat_alt)
  then have "unat c - 0xD800 \<le> 0x3FF" and "unat d - 0xDC00 \<le> 0x3FF"
    by simp_all
  then have "(unat c - 0xD800) * 1024 \<le> 0x3FF * 1024" and "unat d - 0xDC00 \<le> 0x3FF"
    by simp_all
  then show ?thesis by simp
qed

lemma code_unit_bound: "unat (c :: cu) < 0x110000"
proof -
  have "unat c < 2 ^ 16" using unsigned_less [of c, where 'a = nat] by simp
  then show ?thesis by simp
qed

lemma encode_bytes: "b \<in> set (encode str) \<Longrightarrow> b < 256"
proof (induction str arbitrary: b rule: encode.induct)
  case 1
  then show ?case by simp
next
  case (2 c cs)
  have f: "x \<in> set (utf8_code_point 0xFFFD) \<Longrightarrow> x < 256" for x
    by (rule utf8_code_point_bytes [of "0xFFFD"]) simp_all
  show ?case
  proof (cases "isHighSurrogate c")
    case hs: True
    show ?thesis
    proof (cases cs)
      case Nil
      with hs "2.prems" f show ?thesis by simp
    next
      case (Cons d ds)
      show ?thesis
      proof (cases "isLowSurrogate d")
        case True
        with hs Cons "2.prems" have
          "b \<in> set (utf8_code_point (0x10000 + (unat c - 0xD800) * 1024 + (unat d - 0xDC00)))
           \<or> b \<in> set (encode ds)" by simp
        then show ?thesis
        proof
          assume "b \<in> set (utf8_code_point (0x10000 + (unat c - 0xD800) * 1024 + (unat d - 0xDC00)))"
          with surrogate_pair_bound [OF hs True] show ?thesis
            by (rule utf8_code_point_bytes)
        next
          assume "b \<in> set (encode ds)"
          with "2.IH"(1) [OF hs Cons True] show ?thesis .
        qed
      next
        case False
        with hs Cons "2.prems" have "b \<in> set (utf8_code_point 0xFFFD) \<or> b \<in> set (encode cs)"
          by simp
        with f "2.IH"(2) [OF hs Cons False] show ?thesis by blast
      qed
    qed
  next
    case nhs: False
    show ?thesis
    proof (cases "isLowSurrogate c")
      case True
      with nhs "2.prems" have "b \<in> set (utf8_code_point 0xFFFD) \<or> b \<in> set (encode cs)"
        by simp
      with f "2.IH"(3) [OF nhs True] show ?thesis by blast
    next
      case False
      with nhs "2.prems" have "b \<in> set (utf8_code_point (unat c)) \<or> b \<in> set (encode cs)"
        by simp
      with utf8_code_point_bytes [OF code_unit_bound [of c]] "2.IH"(4) [OF nhs False]
      show ?thesis by blast
    qed
  qed
qed

text \<open>
  C8. The string table of a new compiler satisfies the invariant, and every step of a
  compilation keeps it and only adds entries. A string literal is lowered to the name
  that \<open>getConstString\<close> returns, which is the name the table then holds for its text.
  Under the invariant two entries have the same name exactly when they have the same text:
  so the name returned for a literal and the name returned for a literal at any later
  point of the compilation are equal exactly when the texts are, and this holds for the
  final table of every compilation. The constant emitted for an entry declares
  \<open>[N x i8]\<close> with \<open>N\<close> one more than the number of UTF-8 bytes of the text, and its
  initialiser is one three-character escape per byte followed by \<open>\00\<close>.
\<close>

theorem string_interning:
  "strings_inv new_Compiler
   \<and> (strings_inv c \<longrightarrow>
        strings_inv (fst (compile_loop nodes (c, l)))
        \<and> strings_inv (snd (getConstString str c))
        \<and> (map_of (strings c) s = Some n \<longrightarrow>
             map_of (strings (fst (compile_loop nodes (c, l)))) s = Some n)
        \<and> (map_of (strings c) s1 = Some n1 \<and> map_of (strings c) s2 = Some n2 \<longrightarrow>
             (n1 = n2 \<longleftrightarrow> s1 = s2))
        \<and> (fst (getConstString s1 c)
               = fst (getConstString s2 (fst (compile_loop nodes (snd (getConstString s1 c), l))))
             \<longleftrightarrow> s1 = s2))
   \<and> compile_node (String str) (c, l)
       = (snd (getConstString str c),
          push [js ''call i32 @printf(i8* @.fmt, i8* '' @ fst (getConstString str c) @ js '')''] l)
   \<and> map_of (strings (snd (getConstString str c))) str = Some (fst (getConstString str c))
   \<and> (map_of (strings (snd (Compiler_compile head ast new_Compiler))) s1 = Some n1
        \<and> map_of (strings (snd (Compiler_compile head ast new_Compiler))) s2 = Some n2 \<longrightarrow>
        (n1 = n2 \<longleftrightarrow> s1 = s2))
   \<and> string_constant (str, name)
       = name @ js '' = private unnamed_addr constant ['' @ show_nat (length (encode str) + 1)
           @ js '' x i8] c'' @ [0x22] @ concat (map hex_escape (encode str))
           @ ch (CHR 0x5C) # js ''00'' @ [0x22]
   \<and> length (concat (map hex_escape (encode str))) = 3 * length (encode str)
   \<and> (\<forall>b\<in>set (encode str). b < 256)"
proof -
  have final: "strings_inv (snd (Compiler_compile head ast new_Compiler))"
    unfolding Compiler_compile_state using strings_inv_new by (rule strings_inv_compile_nodes)
  have a: "strings_inv (snd (getConstString str c))" if "strings_inv c"
    using getConstString_grows [of c str] that by (rule table_grows_inv)
  show ?thesis
    using strings_inv_new strings_inv_compile_loop [of c nodes l] a
      compile_loop_lookup [of c s n nodes l] strings_inv_injective [of c s1 n1 s2 n2]
      two_literals [of c s1 s2 nodes l] compile_node_String [of str c l]
      getConstString_lookup [of str c]
      strings_inv_injective [OF final, of s1 n1 s2 n2]
      string_constant_text [of str name] escapes_length [of "encode str"]
      encode_bytes [of _ str]
    by blast
qed

theorem string_interning_witness:
  "strings_inv new_Compiler
   \<and> strings
        (snd (Compiler_compile [] [String (js ''hi''), Quote [String (js ''x'')], String (js ''hi''),
                String (js ''a'')] new_Compiler))
       = [(js ''hi'', js ''@str_1''), (js ''x'', js ''@str_2''), (js ''a'', js ''@str_3'')]
   \<and> (js ''@str_1'' = js ''@str_3'' \<longleftrightarrow> js ''hi'' = js ''a'')
   \<and> getConstString (js ''hi'') new_Compiler
       = (js ''@str_1'', new_Compiler\<lparr>strings := [(js ''hi'', js ''@str_1'')],
            stringNameGenerator := 2\<rparr>)
   \<and> strings_inv (new_Compiler\<lparr>strings := [(js ''hi'', js ''@str_1'')], stringNameGenerator := 2\<rparr>)
   \<and> map_of (strings
         (fst (compile_loop [Quote [String (js ''x'')], String (js ''hi'')]
                (new_Compiler\<lparr>strings := [(js ''hi'', js ''@str_1'')], stringNameGenerator := 2\<rparr>,
                 new_Locals)))) (js ''hi'')
       = Some (js ''@str_1'')
   \<and> fst (getConstString (js ''a'')
          (fst (compile_loop [Quote [String (js ''x'')], String (js ''hi'')]
                 (snd (getConstString (js ''hi'') new_Compiler), new_Locals))))
       = js ''@str_3''
   \<and> (fst (getConstString (js ''hi'') new_Compiler)
        = fst (getConstString (js ''a'')
            (fst (compile_loop [Quote [String (js ''x'')], String (js ''hi'')]
                   (snd (getConstString (js ''hi'') new_Compiler), new_Locals))))
       \<longleftrightarrow> js ''hi'' = js ''a'')
   \<and> encode (js ''hi'') = [0x68, 0x69]
   \<and> string_constant (js ''hi'', js ''@str_1'')
       = js ''@str_1 = private unnamed_addr constant [3 x i8] c'' @ [0x22]
           @ ch (CHR 0x5C) # js ''68'' @ ch (CHR 0x5C) # js ''69'' @ ch (CHR 0x5C) # js ''00''
           @ [0x22]"
proof -
  let ?nodes = "[Quote [String (js ''x'')], String (js ''hi'')]"
  let ?ast = "[String (js ''hi''), Quote [String (js ''x'')], String (js ''hi''), String (js ''a'')]"
  let ?c1 = "new_Compiler\<lparr>strings := [(js ''hi'', js ''@str_1'')], stringNameGenerator := 2\<rparr>"
  note th = string_interning [where c = new_Compiler and nodes = ?nodes and l = new_Locals
      and ?s1.0 = "js ''hi''" and ?s2.0 = "js ''a''" and str = "js ''hi''"
      and name = "js ''@str_1''" and head = "[]" and ast = ?ast
      and ?n1.0 = "js ''@str_1''" and ?n2.0 = "js ''@str_3''"]
  note th1 = string_interning [where c = ?c1 and nodes = ?nodes and l = new_Locals
      and s = "js ''hi''" and n = "js ''@str_1''"]
  from th have inv: "strings_inv new_Compiler"
    by blast
  have g: "getConstString (js ''hi'') new_Compiler = (js ''@str_1'', ?c1)"
    by code_simp
  from th inv have "strings_inv (snd (getConstString (js ''hi'') new_Compiler))"
    by blast
  with g have inv1: "strings_inv ?c1"
    by simp
  have l1: "map_of (strings ?c1) (js ''hi'') = Some (js ''@str_1'')"
    by simp
  from th1 inv1 l1 have keep: "map_of (strings (fst (compile_loop ?nodes (?c1, new_Locals)))) (js ''hi'')
      = Some (js ''@str_1'')"
    by blast
  from th inv have e: "fst (getConstString (js ''hi'') new_Compiler)
        = fst (getConstString (js ''a'')
            (fst (compile_loop ?nodes (snd (getConstString (js ''hi'') new_Compiler), new_Locals))))
       \<longleftrightarrow> js ''hi'' = js ''a''"
    by blast
  have t: "strings (snd (Compiler_compile [] ?ast new_Compiler))
       = [(js ''hi'', js ''@str_1''), (js ''x'', js ''@str_2''), (js ''a'', js ''@str_3'')]"
    by code_simp
  then have "map_of (strings (snd (Compiler_compile [] ?ast new_Compiler))) (js ''hi'')
        = Some (js ''@str_1'')"
    and "map_of (strings (snd (Compiler_compile [] ?ast new_Compiler))) (js ''a'')
        = Some (js ''@str_3'')"
    by (simp_all add: js_def ch_def)
  with th have f: "js ''@str_1'' = js ''@str_3'' \<longleftrightarrow> js ''hi'' = js ''a''"
    by blast
  have n2: "fst (getConstString (js ''a'')
          (fst (compile_loop ?nodes (snd (getConstString (js ''hi'') new_Compiler), new_Locals))))
       = js ''@str_3''"
    by code_simp
  have b: "encode (js ''hi'') = [0x68, 0x69]"
    by (simp add: isHighSurrogate_def isLowSurrogate_def utf8_code_point_def js_def ch_def)
  have k: "string_constant (js ''hi'', js ''@str_1'')
       = js ''@str_1 = private unnamed_addr constant [3 x i8] c'' @ [0x22]
           @ ch (CHR 0x5C) # js ''68'' @ ch (CHR 0x5C) # js ''69'' @ ch (CHR 0x5C) # js ''00''
           @ [0x22]"
    by (simp add: string_constant_def encode_string_def isHighSurrogate_def isLowSurrogate_def
        utf8_code_point_def hex_escape_def toString16_def hex_digit_def js_def ch_def
        show_nat_def digits10.simps digit_cu_def)
  from inv t f g inv1 keep n2 e b k show ?thesis
    by blast
qed

end
